theory Spec2Isabelle
  imports Main
begin

section \<open>Python values used by the walker\<close>

text \<open>
  The exceptions that the methods of \<open>Bender\<close> can raise: the three built-in ones that
  list indexing, dictionary lookup and subscripting or unpacking \<open>None\<close> produce, and the
  program's own \<open>BenderTrapped\<close>.
\<close>

datatype error = IndexError | KeyError | TypeError | BenderTrapped

text \<open>
  \<open>xs[i]\<close> on a Python list: a negative index counts from the end, and an index outside
  \<open>-len(xs) .. len(xs) - 1\<close> raises \<open>IndexError\<close>.
\<close>

definition py_index :: "nat \<Rightarrow> int \<Rightarrow> nat option" where
  "py_index n i =
     (let j = (if i < 0 then i + int n else i)
      in if 0 \<le> j \<and> j < int n then Some (nat j) else None)"

definition py_get :: "'a list \<Rightarrow> int \<Rightarrow> error + 'a" where
  "py_get xs i = (case py_index (length xs) i of None \<Rightarrow> Inl IndexError | Some k \<Rightarrow> Inr (xs ! k))"

text \<open>\<open>xs[i] = v\<close> on a Python list, with the same index rule.\<close>

definition py_set :: "'a list \<Rightarrow> int \<Rightarrow> 'a \<Rightarrow> error + 'a list" where
  "py_set xs i v = (case py_index (length xs) i of None \<Rightarrow> Inl IndexError | Some k \<Rightarrow> Inr (xs[k := v]))"

text \<open>
  \<open>str.lower()\<close> on a one-character string whose code point is below 256: the ASCII
  capitals and the Latin-1 capitals (all of \<open>0xC0 .. 0xDE\<close> but the multiplication sign)
  move up by 32, every other character stays.
\<close>

definition lower :: "char \<Rightarrow> char" where
  "lower c =
     (let n = (of_char c :: nat)
      in if (65 \<le> n \<and> n \<le> 90) \<or> (192 \<le> n \<and> n \<le> 222 \<and> n \<noteq> 215)
         then char_of (n + 32) else c)"

section \<open>Module constants\<close>

definition priorities :: "char list" where
  "priorities = [CHR ''s'', CHR ''e'', CHR ''n'', CHR ''w'']"

definition directions :: "char \<rightharpoonup> int \<times> int" where
  "directions =
     [CHR ''w'' \<mapsto> (0, -1), CHR ''n'' \<mapsto> (-1, 0), CHR ''e'' \<mapsto> (0, 1), CHR ''s'' \<mapsto> (1, 0)]"

definition BENDER_CHAR :: char where "BENDER_CHAR = CHR ''@''"
definition BOOTH_CHAR :: char where "BOOTH_CHAR = CHR ''$''"
definition INVERTER_CHAR :: char where "INVERTER_CHAR = CHR ''I''"
definition BEER_CHAR :: char where "BEER_CHAR = CHR ''B''"
definition OBSTACLE_BREAKABLE :: char where "OBSTACLE_BREAKABLE = CHR ''X''"
definition OBSTACLE_UNBREAKABLE :: char where "OBSTACLE_UNBREAKABLE = CHR ''#''"
definition TELEPORT_CHAR :: char where "TELEPORT_CHAR = CHR ''T''"
definition TIMEOUT :: nat where "TIMEOUT = 8000"

definition DIRECTION_LONG_NAMES :: "char \<rightharpoonup> string" where
  "DIRECTION_LONG_NAMES =
     [CHR ''n'' \<mapsto> ''NORTH'', CHR ''s'' \<mapsto> ''SOUTH'', CHR ''e'' \<mapsto> ''EAST'', CHR ''w'' \<mapsto> ''WEST'']"

section \<open>The walker\<close>

text \<open>
  The attributes of a \<open>Bender\<close> object. The board is a list of rows, each a list of
  one-character cells (the driver builds every row with \<open>list(input())\<close>, so no two rows
  are the same list object and a row is modelled by its value). \<open>self.teleport\<close> is either
  \<open>None\<close> or a dictionary from coordinates to coordinates.
\<close>

record bender =
  self_rows :: "char list list"
  self_x :: int
  self_y :: int
  self_teleport :: "(int \<times> int \<rightharpoonup> int \<times> int) option"
  self_history :: "string list"
  self_current_direction :: char
  self_priorities :: "char list"
  self_in_beer_state :: bool

text \<open>
  A method that mutates the object either returns, giving the new object, or raises,
  and then the object keeps what had been assigned before the raise: the left summand
  carries the exception together with the object as the raise leaves it.
\<close>

type_synonym outcome = "(error \<times> bender) + bender"

subsection \<open>Construction\<close>

fun initial_cell_in_row :: "nat \<Rightarrow> (nat \<times> char) list \<Rightarrow> (int \<times> int) option" where
  "initial_cell_in_row row_index [] = None"
| "initial_cell_in_row row_index ((col_index, col) # cols) =
     (if BENDER_CHAR = col then Some (int row_index, int col_index)
      else initial_cell_in_row row_index cols)"

fun initial_cell_in_rows :: "(nat \<times> char list) list \<Rightarrow> (int \<times> int) option" where
  "initial_cell_in_rows [] = None"
| "initial_cell_in_rows ((row_index, row) # rest) =
     (case initial_cell_in_row row_index (enumerate 0 row) of
        Some p \<Rightarrow> Some p
      | None \<Rightarrow> initial_cell_in_rows rest)"

text \<open>\<open>get_initial_cell\<close> falls off its loops without a \<open>return\<close>, that is with \<open>None\<close>,
  when no cell holds the start marker.\<close>

definition get_initial_cell :: "char list list \<Rightarrow> (int \<times> int) option" where
  "get_initial_cell rows = initial_cell_in_rows (enumerate 0 rows)"

fun teleporters_in_row :: "nat \<Rightarrow> (nat \<times> char) list \<Rightarrow> (int \<times> int) list" where
  "teleporters_in_row row_index [] = []"
| "teleporters_in_row row_index ((col_index, col) # cols) =
     (if col = TELEPORT_CHAR then (int row_index, int col_index) # teleporters_in_row row_index cols
      else teleporters_in_row row_index cols)"

fun teleporters_in_rows :: "(nat \<times> char list) list \<Rightarrow> (int \<times> int) list" where
  "teleporters_in_rows [] = []"
| "teleporters_in_rows ((row_index, row) # rest) =
     teleporters_in_row row_index (enumerate 0 row) @ teleporters_in_rows rest"

definition teleport_locations :: "char list list \<Rightarrow> (int \<times> int) list" where
  "teleport_locations rows = teleporters_in_rows (enumerate 0 rows)"

text \<open>
  The dictionary is built from the first two locations inside \<open>try\<close>; the bare \<open>except\<close>
  turns the \<open>IndexError\<close> of a missing first or second location into \<open>None\<close>.
\<close>

definition get_teleporters :: "char list list \<Rightarrow> (int \<times> int \<rightharpoonup> int \<times> int) option" where
  "get_teleporters rows =
     (let locs = teleport_locations rows
      in case py_get locs 0 of
           Inl e \<Rightarrow> None
         | Inr l0 \<Rightarrow>
             (case py_get locs 1 of
                Inl e \<Rightarrow> None
              | Inr l1 \<Rightarrow> Some [l0 \<mapsto> l1, l1 \<mapsto> l0]))"

text \<open>\<open>Bender.__init__\<close>: unpacking the \<open>None\<close> of a missing start marker into
  \<open>self.x, self.y\<close> raises \<open>TypeError\<close>.\<close>

definition Bender_init :: "char list list \<Rightarrow> error + bender" where
  "Bender_init rows =
     (case get_initial_cell rows of
        None \<Rightarrow> Inl TypeError
      | Some (x0, y0) \<Rightarrow>
          Inr \<lparr> self_rows = rows, self_x = x0, self_y = y0,
                self_teleport = get_teleporters rows, self_history = [],
                self_current_direction = CHR ''s'', self_priorities = priorities,
                self_in_beer_state = False \<rparr>)"

subsection \<open>Reading the board\<close>

definition current_cell :: "bender \<Rightarrow> error + char" where
  "current_cell s =
     (case py_get (self_rows s) (self_x s) of
        Inl e \<Rightarrow> Inl e
      | Inr row \<Rightarrow> py_get row (self_y s))"

definition obstacles :: "bender \<Rightarrow> string" where
  "obstacles s = (if self_in_beer_state s then ''#'' else ''#X'')"

definition get_cell :: "bender \<Rightarrow> char \<Rightarrow> error + char" where
  "get_cell s compass =
     (case directions compass of
        None \<Rightarrow> Inl KeyError
      | Some (dx, dy) \<Rightarrow>
          (case py_get (self_rows s) (self_x s + dx) of
             Inl e \<Rightarrow> Inl e
           | Inr row \<Rightarrow> py_get row (self_y s + dy)))"

text \<open>\<open>cell in self.obstacles\<close> tests a one-character cell against a string: membership.\<close>

definition check_for_obstacle :: "bender \<Rightarrow> char \<Rightarrow> error + bool" where
  "check_for_obstacle s compass =
     (case get_cell s compass of
        Inl e \<Rightarrow> Inl e
      | Inr cell \<Rightarrow> Inr (cell \<in> set (obstacles s)))"

definition on_forced_direction :: "bender \<Rightarrow> error + bool" where
  "on_forced_direction s =
     (case current_cell s of
        Inl e \<Rightarrow> Inl e
      | Inr c \<Rightarrow> Inr (directions (lower c) \<noteq> None))"

definition finished :: "bender \<Rightarrow> error + bool" where
  "finished s =
     (case current_cell s of
        Inl e \<Rightarrow> Inl e
      | Inr c \<Rightarrow> if c = BOOTH_CHAR then Inr True else Inr (length (self_history s) > TIMEOUT))"

subsection \<open>Entry effects\<close>

definition check_beer :: "bender \<Rightarrow> outcome" where
  "check_beer s =
     (case current_cell s of
        Inl e \<Rightarrow> Inl (e, s)
      | Inr c \<Rightarrow>
          if c = BEER_CHAR then Inr (s\<lparr>self_in_beer_state := \<not> self_in_beer_state s\<rparr>)
          else Inr s)"

definition check_inverter :: "bender \<Rightarrow> outcome" where
  "check_inverter s =
     (case current_cell s of
        Inl e \<Rightarrow> Inl (e, s)
      | Inr c \<Rightarrow>
          if c = INVERTER_CHAR then Inr (s\<lparr>self_priorities := rev (self_priorities s)\<rparr>)
          else Inr s)"

definition check_teleport :: "bender \<Rightarrow> outcome" where
  "check_teleport s =
     (case current_cell s of
        Inl e \<Rightarrow> Inl (e, s)
      | Inr c \<Rightarrow>
          if c = TELEPORT_CHAR then
            (case self_teleport s of
               None \<Rightarrow> Inl (TypeError, s)
             | Some d \<Rightarrow>
                 (case d (self_x s, self_y s) of
                    None \<Rightarrow> Inl (KeyError, s)
                  | Some (x', y') \<Rightarrow> Inr (s\<lparr>self_x := x', self_y := y'\<rparr>)))
          else Inr s)"

text \<open>\<open>self.rows[self.x][self.y] = ' '\<close>: the row is fetched, then assigned into.\<close>

definition set_cell :: "char list list \<Rightarrow> int \<Rightarrow> int \<Rightarrow> char \<Rightarrow> error + char list list" where
  "set_cell rows i j v =
     (case py_get rows i of
        Inl e \<Rightarrow> Inl e
      | Inr row \<Rightarrow>
          (case py_set row j v of
             Inl e \<Rightarrow> Inl e
           | Inr row' \<Rightarrow> py_set rows i row'))"

definition check_destroy_obstacle :: "bender \<Rightarrow> outcome" where
  "check_destroy_obstacle s =
     (case current_cell s of
        Inl e \<Rightarrow> Inl (e, s)
      | Inr c \<Rightarrow>
          if c = OBSTACLE_BREAKABLE \<and> self_in_beer_state s then
            (case set_cell (self_rows s) (self_x s) (self_y s) (CHR '' '') of
               Inl e \<Rightarrow> Inl (e, s)
             | Inr rows' \<Rightarrow> Inr (s\<lparr>self_rows := rows'\<rparr>))
          else Inr s)"

definition check_current_cell :: "bender \<Rightarrow> outcome" where
  "check_current_cell s =
     (case check_beer s of
        Inl r \<Rightarrow> Inl r
      | Inr s1 \<Rightarrow>
          (case check_inverter s1 of
             Inl r \<Rightarrow> Inl r
           | Inr s2 \<Rightarrow>
               (case check_teleport s2 of
                  Inl r \<Rightarrow> Inl r
                | Inr s3 \<Rightarrow> check_destroy_obstacle s3)))"

subsection \<open>Moving\<close>

text \<open>
  \<open>move\<close> looks the delta up before it assigns anything, and the long name after the
  position has been updated.
\<close>

definition move :: "bender \<Rightarrow> char \<Rightarrow> outcome" where
  "move s compass =
     (case directions compass of
        None \<Rightarrow> Inl (KeyError, s)
      | Some (dx, dy) \<Rightarrow>
          (let s1 = s\<lparr>self_x := self_x s + dx, self_y := self_y s + dy\<rparr>
           in case DIRECTION_LONG_NAMES compass of
                None \<Rightarrow> Inl (KeyError, s1)
              | Some name \<Rightarrow>
                  Inr (s1\<lparr>self_history := self_history s1 @ [name],
                          self_current_direction := compass\<rparr>)))"

definition move_in_forced_direction :: "bender \<Rightarrow> outcome" where
  "move_in_forced_direction s =
     (case current_cell s of
        Inl e \<Rightarrow> Inl (e, s)
      | Inr c \<Rightarrow> move s (lower c))"

text \<open>The \<open>for\<close> loop of \<open>move_via_priorities\<close> over the directions still to try.\<close>

fun try_priorities :: "bender \<Rightarrow> char list \<Rightarrow> outcome" where
  "try_priorities s [] = Inl (BenderTrapped, s)"
| "try_priorities s (direction # rest) =
     (case check_for_obstacle s direction of
        Inl e \<Rightarrow> Inl (e, s)
      | Inr blocked \<Rightarrow> if \<not> blocked then move s direction else try_priorities s rest)"

definition move_via_priorities :: "bender \<Rightarrow> outcome" where
  "move_via_priorities s = try_priorities s (self_priorities s)"

definition go :: "bender \<Rightarrow> outcome" where
  "go s =
     (case check_current_cell s of
        Inl r \<Rightarrow> Inl r
      | Inr s1 \<Rightarrow>
          (case on_forced_direction s1 of
             Inl e \<Rightarrow> Inl (e, s1)
           | Inr forced \<Rightarrow>
               if forced then move_in_forced_direction s1
               else
                 (case check_for_obstacle s1 (self_current_direction s1) of
                    Inl e \<Rightarrow> Inl (e, s1)
                  | Inr blocked \<Rightarrow>
                      if \<not> blocked then move s1 (self_current_direction s1)
                      else move_via_priorities s1)))"

subsection \<open>The driver\<close>

text \<open>
  The driver's loop \<open>while not bender.finished: bender.go()\<close>. Every call of \<open>go\<close> that
  returns has appended one move, and \<open>finished\<close> is false only while the history is no
  longer than \<open>TIMEOUT\<close>, so the loop ends: by returning the object as it is when
  \<open>finished\<close> holds, or with the exception that \<open>finished\<close> or \<open>go\<close> raised.
\<close>

function run :: "bender \<Rightarrow> outcome" where
  "run s =
     (case finished s of
        Inl e \<Rightarrow> Inl (e, s)
      | Inr over \<Rightarrow>
          if over then Inr s
          else (case go s of Inl r \<Rightarrow> Inl r | Inr s' \<Rightarrow> run s'))"
  by pat_completeness auto
termination
proof (relation "measure (\<lambda>s. Suc TIMEOUT - length (self_history s))")
  show "wf (measure (\<lambda>s. Suc TIMEOUT - length (self_history s)))" by simp
next
  fix s :: bender and over s'
  assume fin: "finished s = Inr over" and nd: "\<not> over" and g: "go s = Inr s'"
  have mv: "\<And>t c t'. move t c = Inr t' \<Longrightarrow>
      length (self_history t') = Suc (length (self_history t))"
    by (auto simp: move_def Let_def split: option.splits prod.splits)
  have tp: "\<And>t ds t'. try_priorities t ds = Inr t' \<Longrightarrow>
      length (self_history t') = Suc (length (self_history t))"
  proof -
    fix t ds t'
    show "try_priorities t ds = Inr t' \<Longrightarrow>
        length (self_history t') = Suc (length (self_history t))"
      by (induction ds) (auto split: sum.splits if_splits dest: mv)
  qed
  have cc: "\<And>t t'. check_current_cell t = Inr t' \<Longrightarrow> self_history t' = self_history t"
    by (auto simp: check_current_cell_def check_beer_def check_inverter_def check_teleport_def
          check_destroy_obstacle_def split: sum.splits if_splits option.splits prod.splits)
  have "length (self_history s') = Suc (length (self_history s))"
    using g by (auto simp: go_def move_in_forced_direction_def move_via_priorities_def
          split: sum.splits if_splits dest!: mv tp cc)
  moreover have "length (self_history s) \<le> TIMEOUT"
    using fin nd by (auto simp: finished_def split: sum.splits if_splits)
  ultimately show "(s', s) \<in> measure (\<lambda>s. Suc TIMEOUT - length (self_history s))"
    by simp
qed

declare run.simps [simp del]

subsection \<open>Runs of a given number of steps\<close>

text \<open>The object as a call leaves it, whether the call returned or raised.\<close>

fun object_after :: "outcome \<Rightarrow> bender" where
  "object_after (Inl (e, s)) = s"
| "object_after (Inr s) = s"

text \<open>\<open>n\<close> consecutive calls of \<open>go\<close>; the first exception ends the sequence.\<close>

fun steps :: "nat \<Rightarrow> bender \<Rightarrow> outcome" where
  "steps 0 s = Inr s"
| "steps (Suc n) s = (case go s of Inl r \<Rightarrow> Inl r | Inr s' \<Rightarrow> steps n s')"

text \<open>
  The number of calls, among the first \<open>n\<close> of a run, that begin on an inverter cell:
  these are the calls in which \<open>check_inverter\<close> fires.
\<close>

fun inverter_entries :: "nat \<Rightarrow> bender \<Rightarrow> nat" where
  "inverter_entries 0 s = 0"
| "inverter_entries (Suc n) s =
     (if current_cell s = Inr INVERTER_CHAR then 1 else 0) +
     (case go s of Inl r \<Rightarrow> 0 | Inr s' \<Rightarrow> inverter_entries n s')"

subsection \<open>Boards of the scenarios\<close>

text \<open>The board of the constructor's docstring: a walled 5 by 5 room, the start marker
  at (1, 1) and the booth at (3, 3).\<close>

definition docstring_board :: "char list list" where
  "docstring_board = [''#####'', ''#@  #'', ''#   #'', ''#  $#'', ''#####'']"

definition docstring_start :: bender where
  "docstring_start =
     \<lparr> self_rows = docstring_board, self_x = 1, self_y = 1, self_teleport = None,
       self_history = [], self_current_direction = CHR ''s'',
       self_priorities = priorities, self_in_beer_state = False \<rparr>"

text \<open>A forced-direction cell that points into the wall: the walker reaches the \<open>S\<close> at
  (3, 1) after two moves south, and the cell south of it is \<open>#\<close>.\<close>

definition forced_board :: "char list list" where
  "forced_board = [''#####'', ''#@  #'', ''#   #'', ''#S $#'', ''#####'']"

definition forced_state :: bender where
  "forced_state =
     \<lparr> self_rows = forced_board, self_x = 3, self_y = 1, self_teleport = None,
       self_history = [''SOUTH'', ''SOUTH''], self_current_direction = CHR ''s'',
       self_priorities = priorities, self_in_beer_state = False \<rparr>"

text \<open>A walker walled in on all four sides.\<close>

definition trap_board :: "char list list" where
  "trap_board = [''###'', ''#@#'', ''###'']"

definition trap_state :: bender where
  "trap_state =
     \<lparr> self_rows = trap_board, self_x = 1, self_y = 1, self_teleport = None,
       self_history = [], self_current_direction = CHR ''s'',
       self_priorities = priorities, self_in_beer_state = False \<rparr>"

text \<open>
  A corridor of two cells in which the walker goes south and north for ever; the booth
  is absent. \<open>bounce_state k\<close> is the object after \<open>k\<close> moves.
\<close>

definition bounce_board :: "char list list" where
  "bounce_board = [''###'', ''#@#'', ''# #'', ''###'']"

fun bounce_history :: "nat \<Rightarrow> string list" where
  "bounce_history 0 = []"
| "bounce_history (Suc k) = bounce_history k @ [if even k then ''SOUTH'' else ''NORTH'']"

definition bounce_state :: "nat \<Rightarrow> bender" where
  "bounce_state k =
     \<lparr> self_rows = bounce_board, self_x = (if even k then 1 else 2), self_y = 1,
       self_teleport = None, self_history = bounce_history k,
       self_current_direction = (if even k \<and> 0 < k then CHR ''n'' else CHR ''s''),
       self_priorities = priorities, self_in_beer_state = False \<rparr>"

text \<open>A board with a pair of teleporters; \<open>teleport_state\<close> is the object after the
  first move, with the walker on the teleporter at (2, 1).\<close>

definition teleport_board :: "char list list" where
  "teleport_board = [''#####'', ''#@ T#'', ''#T  #'', ''#  $#'', ''#####'']"

definition teleport_state :: bender where
  "teleport_state =
     \<lparr> self_rows = teleport_board, self_x = 2, self_y = 1,
       self_teleport = Some [(1, 3) \<mapsto> (2, 1), (2, 1) \<mapsto> (1, 3)],
       self_history = [''SOUTH''], self_current_direction = CHR ''s'',
       self_priorities = priorities, self_in_beer_state = False \<rparr>"

text \<open>A board on which the walker crosses two inverters in a row.\<close>

definition inverter_board :: "char list list" where
  "inverter_board = [''#####'', ''#@  #'', ''#I  #'', ''#I $#'', ''#####'']"

definition inverter_start :: bender where
  "inverter_start =
     \<lparr> self_rows = inverter_board, self_x = 1, self_y = 1, self_teleport = None,
       self_history = [], self_current_direction = CHR ''s'',
       self_priorities = priorities, self_in_beer_state = False \<rparr>"

text \<open>A board with a single teleporter, south of the start marker, and a board with no
  start marker.\<close>

definition lone_teleporter_board :: "char list list" where
  "lone_teleporter_board = [''####'', ''#@ #'', ''#T #'', ''####'']"

definition lone_teleporter_start :: bender where
  "lone_teleporter_start =
     \<lparr> self_rows = lone_teleporter_board, self_x = 1, self_y = 1, self_teleport = None,
       self_history = [], self_current_direction = CHR ''s'',
       self_priorities = priorities, self_in_beer_state = False \<rparr>"

definition unmarked_board :: "char list list" where
  "unmarked_board = [''###'', ''# #'', ''###'']"

text \<open>A corridor with a beer and, south of it, a breakable obstacle before the booth;
  \<open>beer_state\<close> is the object after two moves, with the walker on the obstacle and the
  beer flag set.\<close>

definition beer_board :: "char list list" where
  "beer_board = [''###'', ''#@#'', ''#B#'', ''#X#'', ''#$#'', ''###'']"

definition beer_start :: bender where
  "beer_start =
     \<lparr> self_rows = beer_board, self_x = 1, self_y = 1, self_teleport = None,
       self_history = [], self_current_direction = CHR ''s'',
       self_priorities = priorities, self_in_beer_state = False \<rparr>"

definition beer_state :: bender where
  "beer_state =
     beer_start\<lparr> self_x := 3, self_history := [''SOUTH'', ''SOUTH''],
                 self_in_beer_state := True \<rparr>"

section \<open>Evaluating the model on concrete boards\<close>

lemmas entry_defs =
  check_current_cell_def check_beer_def check_inverter_def check_teleport_def
  check_destroy_obstacle_def

lemmas char_defs =
  BENDER_CHAR_def BOOTH_CHAR_def INVERTER_CHAR_def BEER_CHAR_def OBSTACLE_BREAKABLE_def
  OBSTACLE_UNBREAKABLE_def TELEPORT_CHAR_def

lemmas eval_defs =
  entry_defs char_defs go_def move_def move_in_forced_direction_def move_via_priorities_def
  on_forced_direction_def check_for_obstacle_def get_cell_def obstacles_def current_cell_def
  finished_def set_cell_def py_get_def py_set_def py_index_def lower_def char_of_eq_iff
  directions_def DIRECTION_LONG_NAMES_def priorities_def TIMEOUT_def
  Bender_init_def get_initial_cell_def get_teleporters_def teleport_locations_def
  enumerate_eq_zip upt_rec

section \<open>The docstring scenario\<close>

text \<open>
  Claim C7. On the 5 by 5 board whose border is all \<open>#\<close>, with the start marker at
  (1, 1), the booth at (3, 3) and every other inner cell empty, construction succeeds,
  the driver's loop returns with the walker on the booth, and the history is then exactly
  SOUTH, SOUTH, EAST, EAST.
\<close>

theorem docstring_board_run:
  "Bender_init docstring_board = Inr docstring_start
   \<and> run docstring_start =
       Inr (docstring_start\<lparr> self_x := 3, self_y := 3,
              self_history := [''SOUTH'', ''SOUTH'', ''EAST'', ''EAST''],
              self_current_direction := CHR ''e'' \<rparr>)
   \<and> current_cell (object_after (run docstring_start)) = Inr BOOTH_CHAR
   \<and> self_history (object_after (run docstring_start)) =
       [''SOUTH'', ''SOUTH'', ''EAST'', ''EAST'']"
proof -
  have init: "Bender_init docstring_board = Inr docstring_start"
    by (simp add: eval_defs docstring_board_def docstring_start_def)
  have loop: "run docstring_start =
       Inr (docstring_start\<lparr> self_x := 3, self_y := 3,
              self_history := [''SOUTH'', ''SOUTH'', ''EAST'', ''EAST''],
              self_current_direction := CHR ''e'' \<rparr>)"
    by (simp add: run.simps eval_defs docstring_board_def docstring_start_def)
  have booth: "current_cell (docstring_start\<lparr> self_x := 3, self_y := 3,
              self_history := [''SOUTH'', ''SOUTH'', ''EAST'', ''EAST''],
              self_current_direction := CHR ''e'' \<rparr>) = Inr BOOTH_CHAR"
    by (simp add: eval_defs docstring_board_def docstring_start_def)
  show ?thesis
    using init loop booth by simp
qed

section \<open>Choosing and executing the move\<close>

lemma directions_long_name:
  "directions c = Some d \<Longrightarrow> \<exists>name. DIRECTION_LONG_NAMES c = Some name"
  by (simp add: directions_def DIRECTION_LONG_NAMES_def split: if_splits)

lemma move_known:
  assumes "directions c = Some (dx, dy)"
  shows "\<exists>name. DIRECTION_LONG_NAMES c = Some name \<and>
     move s c = Inr (s\<lparr> self_x := self_x s + dx, self_y := self_y s + dy,
                        self_history := self_history s @ [name],
                        self_current_direction := c \<rparr>)"
proof -
  from directions_long_name [OF assms] obtain name where "DIRECTION_LONG_NAMES c = Some name" ..
  then show ?thesis using assms by (simp add: move_def)
qed

lemma check_for_obstacle_direction:
  "check_for_obstacle s c = Inr b \<Longrightarrow> \<exists>d. directions c = Some d"
  by (auto simp: check_for_obstacle_def get_cell_def split: option.splits sum.splits)

lemma check_for_obstacle_iff:
  "check_for_obstacle s c = Inr b \<longleftrightarrow>
     (\<exists>cell. get_cell s c = Inr cell \<and>
        b = (cell = OBSTACLE_UNBREAKABLE \<or> cell = OBSTACLE_BREAKABLE \<and> \<not> self_in_beer_state s))"
  by (auto simp: check_for_obstacle_def obstacles_def char_defs split: sum.splits)

lemma try_priorities_first_free:
  assumes "\<forall>p \<in> set pre. check_for_obstacle s p = Inr True"
    and "check_for_obstacle s d = Inr False"
  shows "try_priorities s (pre @ d # post) = move s d"
  using assms by (induction pre) simp_all

lemma try_priorities_all_blocked:
  assumes "\<forall>p \<in> set ds. check_for_obstacle s p = Inr True"
  shows "try_priorities s ds = Inl (BenderTrapped, s)"
  using assms by (induction ds) simp_all


lemma check_for_obstacle_delta:
  assumes "check_for_obstacle s c = Inr b"
  obtains dx dy where "directions c = Some (dx, dy)"
proof -
  from check_for_obstacle_direction [OF assms] obtain d where "directions c = Some d" ..
  then show ?thesis using that by (cases d) simp
qed

lemma go_straight:
  assumes entry: "check_current_cell s = Inr s1"
    and free: "on_forced_direction s1 = Inr False"
    and ok: "check_for_obstacle s1 (self_current_direction s1) = Inr False"
  shows "go s = move s1 (self_current_direction s1)"
  using entry free ok by (simp add: go_def)

lemma go_fallback:
  assumes entry: "check_current_cell s = Inr s1"
    and free: "on_forced_direction s1 = Inr False"
    and ok: "check_for_obstacle s1 (self_current_direction s1) = Inr True"
  shows "go s = try_priorities s1 (self_priorities s1)"
  using entry free ok by (simp add: go_def move_via_priorities_def)

text \<open>
  Claim C1. Let \<open>s1\<close> be the object after the entry effects of a call of \<open>go\<close>, with the
  walker not on a forced-direction cell. A direction is blocked exactly when the cell next
  to the walker in that direction holds \<open>#\<close>, or holds \<open>X\<close> while the beer flag is false.
  If the current direction is not blocked the walker moves in the current direction;
  if it is blocked the walker moves in the first direction of the current priority list
  that is not blocked. Moving adds the direction's delta to the position, appends its long
  name to the history and makes it the current direction.
\<close>

theorem go_moves_straight_or_by_priority:
  assumes entry: "check_current_cell s = Inr s1"
    and free: "on_forced_direction s1 = Inr False"
  shows "(\<forall>c b. check_for_obstacle s1 c = Inr b \<longleftrightarrow>
            (\<exists>cell. get_cell s1 c = Inr cell \<and>
               b = (cell = CHR ''#'' \<or> cell = CHR ''X'' \<and> \<not> self_in_beer_state s1)))
       \<and> (check_for_obstacle s1 (self_current_direction s1) = Inr False \<longrightarrow>
            (\<exists>dx dy name. directions (self_current_direction s1) = Some (dx, dy)
               \<and> DIRECTION_LONG_NAMES (self_current_direction s1) = Some name
               \<and> go s = Inr (s1\<lparr> self_x := self_x s1 + dx, self_y := self_y s1 + dy,
                                  self_history := self_history s1 @ [name],
                                  self_current_direction := self_current_direction s1 \<rparr>)))
       \<and> (\<forall>pre d post.
            check_for_obstacle s1 (self_current_direction s1) = Inr True
            \<and> self_priorities s1 = pre @ d # post
            \<and> (\<forall>p \<in> set pre. check_for_obstacle s1 p = Inr True)
            \<and> check_for_obstacle s1 d = Inr False \<longrightarrow>
            (\<exists>dx dy name. directions d = Some (dx, dy)
               \<and> DIRECTION_LONG_NAMES d = Some name
               \<and> go s = Inr (s1\<lparr> self_x := self_x s1 + dx, self_y := self_y s1 + dy,
                                  self_history := self_history s1 @ [name],
                                  self_current_direction := d \<rparr>)))"
proof (intro conjI allI impI)
  fix c b
  show "check_for_obstacle s1 c = Inr b \<longleftrightarrow>
            (\<exists>cell. get_cell s1 c = Inr cell \<and>
               b = (cell = CHR ''#'' \<or> cell = CHR ''X'' \<and> \<not> self_in_beer_state s1))"
    using check_for_obstacle_iff [of s1 c b] by (simp add: char_defs)
next
  let ?c = "self_current_direction s1"
  assume ok: "check_for_obstacle s1 ?c = Inr False"
  from ok obtain dx dy where d: "directions ?c = Some (dx, dy)"
    by (rule check_for_obstacle_delta)
  from move_known [OF d, of s1] obtain name where
    n: "DIRECTION_LONG_NAMES ?c = Some name" and
    m: "move s1 ?c = Inr (s1\<lparr> self_x := self_x s1 + dx, self_y := self_y s1 + dy,
                        self_history := self_history s1 @ [name],
                        self_current_direction := ?c \<rparr>)" by blast
  have gm: "go s = move s1 ?c"
    using entry free ok by (rule go_straight)
  have g: "go s = Inr (s1\<lparr> self_x := self_x s1 + dx, self_y := self_y s1 + dy,
                        self_history := self_history s1 @ [name],
                        self_current_direction := ?c \<rparr>)" by (simp only: gm m)
  from d n g show "\<exists>dx dy name. directions ?c = Some (dx, dy)
               \<and> DIRECTION_LONG_NAMES ?c = Some name
               \<and> go s = Inr (s1\<lparr> self_x := self_x s1 + dx, self_y := self_y s1 + dy,
                                  self_history := self_history s1 @ [name],
                                  self_current_direction := ?c \<rparr>)"
    by (intro exI conjI)
next
  fix pre d post
  assume h: "check_for_obstacle s1 (self_current_direction s1) = Inr True
            \<and> self_priorities s1 = pre @ d # post
            \<and> (\<forall>p \<in> set pre. check_for_obstacle s1 p = Inr True)
            \<and> check_for_obstacle s1 d = Inr False"
  then have ok: "check_for_obstacle s1 d = Inr False" by blast
  from ok obtain dx dy where d: "directions d = Some (dx, dy)"
    by (rule check_for_obstacle_delta)
  from move_known [OF d, of s1] obtain name where
    n: "DIRECTION_LONG_NAMES d = Some name" and
    m: "move s1 d = Inr (s1\<lparr> self_x := self_x s1 + dx, self_y := self_y s1 + dy,
                        self_history := self_history s1 @ [name],
                        self_current_direction := d \<rparr>)" by blast
  have "go s = try_priorities s1 (self_priorities s1)"
    using entry free h by (intro go_fallback) simp_all
  also have "\<dots> = try_priorities s1 (pre @ d # post)" using h by simp
  also have "\<dots> = move s1 d"
    using h by (intro try_priorities_first_free) simp_all
  finally have gm: "go s = move s1 d" .
  have g: "go s = Inr (s1\<lparr> self_x := self_x s1 + dx, self_y := self_y s1 + dy,
                        self_history := self_history s1 @ [name],
                        self_current_direction := d \<rparr>)" by (simp only: gm m)
  from d n g show "\<exists>dx dy name. directions d = Some (dx, dy)
               \<and> DIRECTION_LONG_NAMES d = Some name
               \<and> go s = Inr (s1\<lparr> self_x := self_x s1 + dx, self_y := self_y s1 + dy,
                                  self_history := self_history s1 @ [name],
                                  self_current_direction := d \<rparr>)"
    by (intro exI conjI)
qed

theorem go_moves_straight_or_by_priority_witness:
  "check_current_cell docstring_start = Inr docstring_start
   \<and> on_forced_direction docstring_start = Inr False
   \<and> check_for_obstacle docstring_start (CHR ''s'') = Inr False
   \<and> go docstring_start =
       Inr (docstring_start\<lparr> self_x := 2, self_history := [''SOUTH''] \<rparr>)
   \<and> check_for_obstacle (docstring_start\<lparr> self_x := 3 \<rparr>) (CHR ''s'') = Inr True
   \<and> check_for_obstacle (docstring_start\<lparr> self_x := 3 \<rparr>) (CHR ''e'') = Inr False
   \<and> go (docstring_start\<lparr> self_x := 3 \<rparr>) =
       Inr (docstring_start\<lparr> self_x := 3, self_y := 2, self_history := [''EAST''],
              self_current_direction := CHR ''e'' \<rparr>)"
proof -
  let ?a = docstring_start
  let ?b = "docstring_start\<lparr> self_x := 3 \<rparr>"
  have a1: "check_current_cell ?a = Inr ?a"
    by (simp add: eval_defs docstring_board_def docstring_start_def)
  have a2: "on_forced_direction ?a = Inr False"
    by (simp add: eval_defs docstring_board_def docstring_start_def)
  have a3: "check_for_obstacle ?a (self_current_direction ?a) = Inr False"
    by (simp add: eval_defs docstring_board_def docstring_start_def)
  have a4: "self_current_direction ?a = CHR ''s''"
    by (simp add: docstring_start_def)
  have b1: "check_current_cell ?b = Inr ?b"
    by (simp add: eval_defs docstring_board_def docstring_start_def)
  have b2: "on_forced_direction ?b = Inr False"
    by (simp add: eval_defs docstring_board_def docstring_start_def)
  have b3: "check_for_obstacle ?b (self_current_direction ?b) = Inr True"
    by (simp add: eval_defs docstring_board_def docstring_start_def)
  have b4: "self_priorities ?b = [CHR ''s''] @ CHR ''e'' # [CHR ''n'', CHR ''w'']"
    by (simp add: docstring_start_def priorities_def)
  have b5: "\<forall>p \<in> set [CHR ''s'']. check_for_obstacle ?b p = Inr True"
    by (simp add: eval_defs docstring_board_def docstring_start_def)
  have b6: "check_for_obstacle ?b (CHR ''e'') = Inr False"
    by (simp add: eval_defs docstring_board_def docstring_start_def)
  from go_moves_straight_or_by_priority [OF a1 a2] a3
  obtain dx dy name where
    "directions (self_current_direction ?a) = Some (dx, dy)"
    "DIRECTION_LONG_NAMES (self_current_direction ?a) = Some name"
    and ga: "go ?a = Inr (?a\<lparr> self_x := self_x ?a + dx, self_y := self_y ?a + dy,
                                  self_history := self_history ?a @ [name],
                                  self_current_direction := self_current_direction ?a \<rparr>)"
    by blast
  then have "dx = 1 \<and> dy = 0 \<and> name = ''SOUTH''"
    by (simp add: a4 directions_def DIRECTION_LONG_NAMES_def)
  with ga have ga': "go ?a = Inr (?a\<lparr> self_x := 2, self_history := [''SOUTH''] \<rparr>)"
    by (simp add: docstring_start_def)
  from go_moves_straight_or_by_priority [OF b1 b2] b3 b4 b5 b6
  obtain ex ey nm where
    "directions (CHR ''e'') = Some (ex, ey)"
    "DIRECTION_LONG_NAMES (CHR ''e'') = Some nm"
    and gb: "go ?b = Inr (?b\<lparr> self_x := self_x ?b + ex, self_y := self_y ?b + ey,
                                  self_history := self_history ?b @ [nm],
                                  self_current_direction := CHR ''e'' \<rparr>)"
    by blast
  then have "ex = 0 \<and> ey = 1 \<and> nm = ''EAST''"
    by (simp add: directions_def DIRECTION_LONG_NAMES_def)
  with gb have gb': "go ?b = Inr (docstring_start\<lparr> self_x := 3, self_y := 2, self_history := [''EAST''],
              self_current_direction := CHR ''e'' \<rparr>)"
    by (simp add: docstring_start_def)
  show ?thesis
    using a1 a2 a3 a4 ga' b3 b6 gb' by simp
qed

section \<open>Forced directions\<close>

lemma lower_code:
  "of_char (lower c) =
     (let n = (of_char c :: nat)
      in if (65 \<le> n \<and> n \<le> 90) \<or> (192 \<le> n \<and> n \<le> 222 \<and> n \<noteq> 215) then n + 32 else n)"
  by (auto simp: lower_def Let_def)

lemma char_by_code: "c = d \<longleftrightarrow> (of_char c :: nat) = of_char d"
  by (metis char_of_char)

lemma lower_names_direction:
  "directions (lower c) \<noteq> None \<longleftrightarrow> c \<in> set ''wnesWNES''"
proof -
  have "directions (lower c) \<noteq> None \<longleftrightarrow> lower c \<in> set ''wnes''"
    by (simp add: directions_def)
  also have "\<dots> \<longleftrightarrow> (of_char (lower c) :: nat) \<in> {119, 110, 101, 115}"
    by (simp add: char_by_code [of "lower c"])
  also have "\<dots> \<longleftrightarrow> (of_char c :: nat) \<in> {119, 110, 101, 115, 87, 78, 69, 83}"
    by (auto simp: lower_code Let_def)
  also have "\<dots> \<longleftrightarrow> c \<in> set ''wnesWNES''"
    by (simp add: char_by_code [of c])
  finally show ?thesis .
qed

lemma check_current_cell_inert:
  assumes "current_cell s = Inr c"
    and "c \<noteq> BEER_CHAR" "c \<noteq> INVERTER_CHAR" "c \<noteq> TELEPORT_CHAR" "c \<noteq> OBSTACLE_BREAKABLE"
  shows "check_current_cell s = Inr s"
  using assms by (simp add: entry_defs)

text \<open>
  Claim C3. If the cell the walker stands on is one of the letters s, e, n, w in either
  case, a call of \<open>go\<close> returns after a move in the direction that the lowered letter
  names: the position changes by that direction's delta, its long name is appended to the
  history and it becomes the current direction. No cell next to the walker is read, so
  the move happens whatever the target cell holds, an unbreakable obstacle included, and
  neither the current direction nor the priority list is consulted.
\<close>

theorem forced_direction_moves_unchecked:
  assumes cell: "current_cell s = Inr c"
    and letter: "c \<in> set ''senwSENW''"
  shows "\<exists>dx dy name. directions (lower c) = Some (dx, dy)
           \<and> DIRECTION_LONG_NAMES (lower c) = Some name
           \<and> go s = Inr (s\<lparr> self_x := self_x s + dx, self_y := self_y s + dy,
                             self_history := self_history s @ [name],
                             self_current_direction := lower c \<rparr>)"
proof -
  from letter have "directions (lower c) \<noteq> None"
    unfolding lower_names_direction by auto
  then obtain dx dy where d: "directions (lower c) = Some (dx, dy)"
    by (cases "directions (lower c)") auto
  from letter have "c \<noteq> BEER_CHAR" "c \<noteq> INVERTER_CHAR" "c \<noteq> TELEPORT_CHAR"
      "c \<noteq> OBSTACLE_BREAKABLE"
    by (auto simp: char_defs)
  with cell have entry: "check_current_cell s = Inr s"
    by (rule check_current_cell_inert)
  have forced: "on_forced_direction s = Inr True"
    using cell d by (simp add: on_forced_direction_def)
  have gm: "go s = move s (lower c)"
    using entry forced cell by (simp add: go_def move_in_forced_direction_def)
  from move_known [OF d, of s] obtain name where
    n: "DIRECTION_LONG_NAMES (lower c) = Some name" and
    m: "move s (lower c) = Inr (s\<lparr> self_x := self_x s + dx, self_y := self_y s + dy,
                        self_history := self_history s @ [name],
                        self_current_direction := lower c \<rparr>)" by blast
  have g: "go s = Inr (s\<lparr> self_x := self_x s + dx, self_y := self_y s + dy,
                        self_history := self_history s @ [name],
                        self_current_direction := lower c \<rparr>)"
    by (simp only: gm m)
  from d n g show ?thesis by (intro exI conjI)
qed

theorem forced_direction_moves_unchecked_witness:
  "current_cell forced_state = Inr (CHR ''S'')
   \<and> CHR ''S'' \<in> set ''senwSENW''
   \<and> Bender_init forced_board = Inr (forced_state\<lparr> self_x := 1, self_history := [] \<rparr>)
   \<and> steps (Suc (Suc 0)) (forced_state\<lparr> self_x := 1, self_history := [] \<rparr>) = Inr forced_state
   \<and> get_cell forced_state (CHR ''s'') = Inr OBSTACLE_UNBREAKABLE
   \<and> check_for_obstacle forced_state (CHR ''s'') = Inr True
   \<and> go forced_state =
       Inr (forced_state\<lparr> self_x := 4, self_history := [''SOUTH'', ''SOUTH'', ''SOUTH''] \<rparr>)
   \<and> current_cell (forced_state\<lparr> self_x := 4 \<rparr>) = Inr OBSTACLE_UNBREAKABLE"
proof -
  have c: "current_cell forced_state = Inr (CHR ''S'')"
    by (simp add: eval_defs forced_state_def forced_board_def)
  have l: "CHR ''S'' \<in> set ''senwSENW''" by simp
  have low: "lower (CHR ''S'') = CHR ''s''"
    by (simp add: lower_def char_of_eq_iff)
  from forced_direction_moves_unchecked [OF c l] obtain dx dy name where
    "directions (lower (CHR ''S'')) = Some (dx, dy)"
    "DIRECTION_LONG_NAMES (lower (CHR ''S'')) = Some name"
    and g: "go forced_state =
       Inr (forced_state\<lparr> self_x := self_x forced_state + dx,
              self_y := self_y forced_state + dy,
              self_history := self_history forced_state @ [name],
              self_current_direction := lower (CHR ''S'') \<rparr>)"
    by blast
  then have "dx = 1 \<and> dy = 0 \<and> name = ''SOUTH''"
    by (simp add: low directions_def DIRECTION_LONG_NAMES_def)
  with g have g': "go forced_state =
       Inr (forced_state\<lparr> self_x := 4, self_history := [''SOUTH'', ''SOUTH'', ''SOUTH''] \<rparr>)"
    by (simp add: low forced_state_def)
  have wall: "get_cell forced_state (CHR ''s'') = Inr OBSTACLE_UNBREAKABLE"
      "check_for_obstacle forced_state (CHR ''s'') = Inr True"
      "current_cell (forced_state\<lparr> self_x := 4 \<rparr>) = Inr OBSTACLE_UNBREAKABLE"
    by (simp_all add: eval_defs forced_state_def forced_board_def)
  have reach: "Bender_init forced_board = Inr (forced_state\<lparr> self_x := 1, self_history := [] \<rparr>)"
      "steps (Suc (Suc 0)) (forced_state\<lparr> self_x := 1, self_history := [] \<rparr>) = Inr forced_state"
    by (simp_all add: eval_defs forced_state_def forced_board_def)
  show ?thesis using c l g' wall reach by simp
qed

section \<open>What each method leaves alone\<close>

lemma move_keeps:
  "self_rows (object_after (move s c)) = self_rows s"
  "self_priorities (object_after (move s c)) = self_priorities s"
  "self_in_beer_state (object_after (move s c)) = self_in_beer_state s"
  "self_teleport (object_after (move s c)) = self_teleport s"
  by (simp_all add: move_def Let_def split: option.splits prod.splits)

lemma try_priorities_keeps:
  "self_rows (object_after (try_priorities s ds)) = self_rows s"
  "self_priorities (object_after (try_priorities s ds)) = self_priorities s"
  "self_in_beer_state (object_after (try_priorities s ds)) = self_in_beer_state s"
  "self_teleport (object_after (try_priorities s ds)) = self_teleport s"
  by (induction ds) (simp_all add: move_keeps split: sum.splits)

lemma check_beer_keeps:
  "self_history (object_after (check_beer s)) = self_history s"
  "self_teleport (object_after (check_beer s)) = self_teleport s"
  "self_current_direction (object_after (check_beer s)) = self_current_direction s"
  "self_rows (object_after (check_beer s)) = self_rows s"
  "self_priorities (object_after (check_beer s)) = self_priorities s"
  "self_x (object_after (check_beer s)) = self_x s"
  "self_y (object_after (check_beer s)) = self_y s"
  by (simp_all add: check_beer_def split: sum.splits)

lemma check_inverter_keeps:
  "self_history (object_after (check_inverter s)) = self_history s"
  "self_teleport (object_after (check_inverter s)) = self_teleport s"
  "self_current_direction (object_after (check_inverter s)) = self_current_direction s"
  "self_rows (object_after (check_inverter s)) = self_rows s"
  "self_in_beer_state (object_after (check_inverter s)) = self_in_beer_state s"
  "self_x (object_after (check_inverter s)) = self_x s"
  "self_y (object_after (check_inverter s)) = self_y s"
  by (simp_all add: check_inverter_def split: sum.splits)

lemma check_teleport_keeps:
  "self_history (object_after (check_teleport s)) = self_history s"
  "self_teleport (object_after (check_teleport s)) = self_teleport s"
  "self_current_direction (object_after (check_teleport s)) = self_current_direction s"
  "self_rows (object_after (check_teleport s)) = self_rows s"
  "self_in_beer_state (object_after (check_teleport s)) = self_in_beer_state s"
  "self_priorities (object_after (check_teleport s)) = self_priorities s"
  by (simp_all add: check_teleport_def split: sum.splits option.splits prod.splits)

lemma check_destroy_obstacle_keeps:
  "self_history (object_after (check_destroy_obstacle s)) = self_history s"
  "self_teleport (object_after (check_destroy_obstacle s)) = self_teleport s"
  "self_current_direction (object_after (check_destroy_obstacle s)) = self_current_direction s"
  "self_in_beer_state (object_after (check_destroy_obstacle s)) = self_in_beer_state s"
  "self_priorities (object_after (check_destroy_obstacle s)) = self_priorities s"
  "self_x (object_after (check_destroy_obstacle s)) = self_x s"
  "self_y (object_after (check_destroy_obstacle s)) = self_y s"
  by (simp_all add: check_destroy_obstacle_def split: sum.splits)

lemma chain_keeps:
  assumes "\<And>t. f (object_after (A t)) = f t" and "\<And>t. f (object_after (B t)) = f t"
  shows "f (object_after (case A s of Inl r \<Rightarrow> Inl r | Inr s1 \<Rightarrow> B s1)) = f s"
proof (cases "A s")
  case (Inl r)
  then show ?thesis using assms(1) [of s] by simp
next
  case (Inr s1)
  then show ?thesis using assms(1) [of s] assms(2) [of s1] by simp
qed

lemma check_current_cell_keeps:
  "self_history (object_after (check_current_cell s)) = self_history s"
  "self_teleport (object_after (check_current_cell s)) = self_teleport s"
  "self_current_direction (object_after (check_current_cell s)) = self_current_direction s"
  unfolding check_current_cell_def
  by (intro chain_keeps check_beer_keeps check_inverter_keeps check_teleport_keeps
        check_destroy_obstacle_keeps)+

lemma go_after_entry_keeps:
  assumes "check_current_cell s = Inr s1"
  shows "self_rows (object_after (go s)) = self_rows s1"
    and "self_priorities (object_after (go s)) = self_priorities s1"
    and "self_in_beer_state (object_after (go s)) = self_in_beer_state s1"
    and "self_teleport (object_after (go s)) = self_teleport s1"
  using assms
  by (simp_all add: go_def move_in_forced_direction_def move_via_priorities_def
        move_keeps try_priorities_keeps split: sum.splits)

lemma go_entry_raises: "check_current_cell s = Inl r \<Longrightarrow> go s = Inl r"
  by (simp add: go_def)

lemma move_history:
  "move s c = Inr s' \<Longrightarrow> length (self_history s') = Suc (length (self_history s))"
  by (auto simp: move_def Let_def split: option.splits prod.splits)

lemma try_priorities_history:
  "try_priorities s ds = Inr s' \<Longrightarrow> length (self_history s') = Suc (length (self_history s))"
  by (induction ds) (auto split: sum.splits if_splits dest: move_history)

lemma go_history:
  assumes "go s = Inr s'"
  shows "length (self_history s') = Suc (length (self_history s))"
proof -
  from assms obtain s1 where e: "check_current_cell s = Inr s1"
    by (cases "check_current_cell s") (simp_all add: go_def)
  have h: "self_history s1 = self_history s"
    using check_current_cell_keeps(1) [of s] e by simp
  have "length (self_history s') = Suc (length (self_history s1))"
    using assms e
    by (auto simp: go_def move_in_forced_direction_def move_via_priorities_def
          split: sum.splits if_splits dest: move_history try_priorities_history)
  with h show ?thesis by simp
qed

lemma steps_history:
  "steps n s = Inr s' \<Longrightarrow> length (self_history s') = length (self_history s) + n"
  by (induction n arbitrary: s) (auto split: sum.splits dest: go_history)

lemma go_teleport: "self_teleport (object_after (go s)) = self_teleport s"
proof (cases "check_current_cell s")
  case (Inl r)
  then show ?thesis
    using check_current_cell_keeps(2) [of s] by (simp add: go_entry_raises)
next
  case (Inr s1)
  then show ?thesis
    using check_current_cell_keeps(2) [of s] go_after_entry_keeps(4) [OF Inr] by simp
qed

lemma steps_teleport: "self_teleport (object_after (steps n s)) = self_teleport s"
proof (induction n arbitrary: s)
  case 0
  then show ?case by simp
next
  case (Suc n)
  show ?case
  proof (cases "go s")
    case (Inl r)
    then show ?thesis using go_teleport [of s] by simp
  next
    case (Inr s')
    then show ?thesis using go_teleport [of s] Suc [of s'] by simp
  qed
qed

section \<open>The trapped walker\<close>

text \<open>
  Claim C5. When the walker is not on a forced-direction cell, the current direction is
  blocked and every direction of the priority list is blocked, \<open>move_via_priorities\<close>
  and with it \<open>go\<close> raise \<open>BenderTrapped\<close>, an exception class of its own. The object is
  then as the entry effects left it: no move was executed and the history is the one
  before the call. The raise is not taken for completion: the driver's loop, entered with
  \<open>finished\<close> false, ends with the same exception.
\<close>

theorem all_blocked_raises_trapped:
  assumes entry: "check_current_cell s = Inr s1"
    and free: "on_forced_direction s1 = Inr False"
    and ahead: "check_for_obstacle s1 (self_current_direction s1) = Inr True"
    and every: "\<forall>p \<in> set (self_priorities s1). check_for_obstacle s1 p = Inr True"
  shows "move_via_priorities s1 = Inl (BenderTrapped, s1)
       \<and> go s = Inl (BenderTrapped, s1)
       \<and> self_history s1 = self_history s
       \<and> (finished s = Inr False \<longrightarrow> run s = Inl (BenderTrapped, s1))"
proof -
  have t: "move_via_priorities s1 = Inl (BenderTrapped, s1)"
    unfolding move_via_priorities_def using every by (rule try_priorities_all_blocked)
  have g: "go s = Inl (BenderTrapped, s1)"
    using entry free ahead t by (simp add: go_def)
  have h: "self_history s1 = self_history s"
    using check_current_cell_keeps(1) [of s] entry by simp
  have r: "finished s = Inr False \<longrightarrow> run s = Inl (BenderTrapped, s1)"
    using g by (simp add: run.simps [of s])
  from t g h r show ?thesis by blast
qed

theorem all_blocked_raises_trapped_witness:
  "Bender_init trap_board = Inr trap_state
   \<and> check_current_cell trap_state = Inr trap_state
   \<and> on_forced_direction trap_state = Inr False
   \<and> finished trap_state = Inr False
   \<and> go trap_state = Inl (BenderTrapped, trap_state)
   \<and> run trap_state = Inl (BenderTrapped, trap_state)"
proof -
  have i: "Bender_init trap_board = Inr trap_state"
    by (simp add: eval_defs trap_state_def trap_board_def)
  have e: "check_current_cell trap_state = Inr trap_state"
    by (simp add: eval_defs trap_state_def trap_board_def)
  have f: "on_forced_direction trap_state = Inr False"
    by (simp add: eval_defs trap_state_def trap_board_def)
  have a: "check_for_obstacle trap_state (self_current_direction trap_state) = Inr True"
    by (simp add: eval_defs trap_state_def trap_board_def)
  have p: "\<forall>p \<in> set (self_priorities trap_state). check_for_obstacle trap_state p = Inr True"
    by (simp add: eval_defs trap_state_def trap_board_def)
  have n: "finished trap_state = Inr False"
    by (simp add: eval_defs trap_state_def trap_board_def)
  from all_blocked_raises_trapped [OF e f a p] n i e f show ?thesis by blast
qed

section \<open>Completion and the step ceiling\<close>

lemma run_skips:
  assumes "steps n s = Inr t"
    and "\<forall>k<n. \<forall>u. steps k s = Inr u \<longrightarrow> finished u = Inr False"
  shows "run s = run t"
  using assms
proof (induction n arbitrary: s)
  case 0
  then show ?case by simp
next
  case (Suc n)
  from Suc.prems(1) obtain s1 where g: "go s = Inr s1" and rest: "steps n s1 = Inr t"
    by (cases "go s") simp_all
  have "finished s = Inr False"
    using Suc.prems(2) by (auto dest: spec [of _ 0])
  then have first: "run s = run s1"
    using g by (simp add: run.simps [of s])
  have "\<forall>k<n. \<forall>u. steps k s1 = Inr u \<longrightarrow> finished u = Inr False"
  proof (intro allI impI)
    fix k u
    assume "k < n" and "steps k s1 = Inr u"
    then have "Suc k < Suc n" and "steps (Suc k) s = Inr u"
      using g by simp_all
    then show "finished u = Inr False"
      using Suc.prems(2) by blast
  qed
  with rest have "run s1 = run t" by (rule Suc.IH)
  with first show ?case by simp
qed

lemma run_returns_finished:
  assumes "length (self_history s) \<le> Suc TIMEOUT" and "run s = Inr s'"
  shows "current_cell s' = Inr BOOTH_CHAR \<or> length (self_history s') = Suc TIMEOUT"
  using assms
proof (induction s rule: run.induct)
  case (1 s)
  from "1.prems"(2) obtain over where f: "finished s = Inr over"
    by (cases "finished s") (simp_all add: run.simps [of s])
  show ?case
  proof (cases over)
    case True
    with f "1.prems"(2) have same: "s' = s"
      by (simp add: run.simps [of s])
    from f True obtain c where c: "current_cell s = Inr c"
        and why: "c = BOOTH_CHAR \<or> TIMEOUT < length (self_history s)"
      by (cases "current_cell s") (auto simp: finished_def split: if_splits)
    with "1.prems"(1) same show ?thesis by auto
  next
    case False
    with f "1.prems"(2) obtain s1 where g: "go s = Inr s1" and r: "run s1 = Inr s'"
      by (cases "go s") (simp_all add: run.simps [of s])
    from f False have "length (self_history s) \<le> TIMEOUT"
      by (auto simp: finished_def split: sum.splits if_splits)
    with go_history [OF g] have "length (self_history s1) \<le> Suc TIMEOUT" by simp
    with r show ?thesis
      using "1.IH" [OF f False g] by blast
  qed
qed

lemma Bender_init_fields:
  assumes "Bender_init rows = Inr s0"
  shows "self_rows s0 = rows" and "self_history s0 = []"
    and "self_teleport s0 = get_teleporters rows"
    and "self_priorities s0 = priorities" and "self_in_beer_state s0 = False"
    and "self_current_direction s0 = CHR ''s''"
    and "get_initial_cell rows = Some (self_x s0, self_y s0)"
  using assms by (auto simp: Bender_init_def split: option.splits)

lemma bounce_init: "Bender_init bounce_board = Inr (bounce_state 0)"
  by (simp add: eval_defs bounce_state_def bounce_board_def)

lemma bounce_go: "go (bounce_state k) = Inr (bounce_state (Suc k))"
proof (cases "even k")
  case True
  then show ?thesis
    by (cases "k = 0") (simp_all add: eval_defs bounce_state_def bounce_board_def)
next
  case False
  then show ?thesis
    by (simp add: eval_defs bounce_state_def bounce_board_def)
qed

lemma bounce_steps: "steps n (bounce_state k) = Inr (bounce_state (k + n))"
  by (induction n arbitrary: k) (simp_all add: bounce_go)

lemma bounce_history_length: "length (bounce_history k) = k"
  by (induction k) simp_all

lemma bounce_cell:
  "current_cell (bounce_state k) = Inr (if even k then CHR ''@'' else CHR '' '')"
  by (simp add: eval_defs bounce_state_def bounce_board_def)

lemma bounce_finished: "finished (bounce_state k) = Inr (TIMEOUT < k)"
  by (simp add: finished_def bounce_cell BOOTH_CHAR_def)
     (simp add: bounce_state_def bounce_history_length)

lemma bounce_run: "run (bounce_state 0) = Inr (bounce_state (Suc TIMEOUT))"
proof -
  have "steps (Suc TIMEOUT) (bounce_state 0) = Inr (bounce_state (Suc TIMEOUT))"
    using bounce_steps [of "Suc TIMEOUT" 0] by simp
  moreover have "\<forall>k<Suc TIMEOUT. \<forall>u. steps k (bounce_state 0) = Inr u \<longrightarrow> finished u = Inr False"
    using bounce_steps [of _ 0] by (auto simp: bounce_finished)
  ultimately have "run (bounce_state 0) = run (bounce_state (Suc TIMEOUT))"
    by (rule run_skips)
  also have "\<dots> = Inr (bounce_state (Suc TIMEOUT))"
    by (simp add: run.simps [of "bounce_state (Suc TIMEOUT)"] bounce_finished)
  finally show ?thesis .
qed

text \<open>
  Claim C4. \<open>finished\<close> is true exactly when the walker's cell holds the booth marker
  \<open>$\<close> or the history is longer than 8000 (and raises when the cell cannot be read).
  Every call of \<open>go\<close> that returns appends one move to a history that is empty after
  construction, so after \<open>n\<close> calls off the booth \<open>finished\<close> is true exactly from
  \<open>n = 8001\<close> on; and when the driver's loop returns with the walker off the booth, the
  history has exactly 8001 moves.
\<close>

theorem finished_at_booth_or_past_timeout:
  "finished s =
     (case current_cell s of
        Inl e \<Rightarrow> Inl e
      | Inr c \<Rightarrow> Inr (c = CHR ''$'' \<or> 8000 < length (self_history s)))
   \<and> (Bender_init rows = Inr s0 \<and> steps n s0 = Inr t \<and> current_cell t = Inr d
        \<and> d \<noteq> CHR ''$'' \<longrightarrow>
        length (self_history t) = n \<and> finished t = Inr (8001 \<le> n))
   \<and> (Bender_init rows = Inr s0 \<and> run s0 = Inr u \<and> current_cell u \<noteq> Inr (CHR ''$'') \<longrightarrow>
        length (self_history u) = 8001)"
proof (intro conjI impI)
  show "finished s =
     (case current_cell s of
        Inl e \<Rightarrow> Inl e
      | Inr c \<Rightarrow> Inr (c = CHR ''$'' \<or> 8000 < length (self_history s)))"
    by (simp add: finished_def BOOTH_CHAR_def TIMEOUT_def split: sum.splits)
next
  assume h: "Bender_init rows = Inr s0 \<and> steps n s0 = Inr t \<and> current_cell t = Inr d
        \<and> d \<noteq> CHR ''$''"
  then have len: "length (self_history t) = n"
    using steps_history [of n s0 t] Bender_init_fields(2) [of rows s0] by simp
  then show "length (self_history t) = n" .
  from h len show "finished t = Inr (8001 \<le> n)"
    by (auto simp: finished_def BOOTH_CHAR_def TIMEOUT_def)
next
  assume h: "Bender_init rows = Inr s0 \<and> run s0 = Inr u \<and> current_cell u \<noteq> Inr (CHR ''$'')"
  then have "length (self_history s0) \<le> Suc TIMEOUT"
    using Bender_init_fields(2) [of rows s0] by simp
  with h have "current_cell u = Inr BOOTH_CHAR \<or> length (self_history u) = Suc TIMEOUT"
    by (intro run_returns_finished [of s0]) simp_all
  with h show "length (self_history u) = 8001"
    by (simp add: BOOTH_CHAR_def TIMEOUT_def)
qed

theorem finished_at_booth_or_past_timeout_witness:
  "Bender_init bounce_board = Inr (bounce_state 0)
   \<and> steps 8000 (bounce_state 0) = Inr (bounce_state 8000)
   \<and> current_cell (bounce_state 8000) = Inr (CHR ''@'')
   \<and> finished (bounce_state 8000) = Inr False
   \<and> steps 8001 (bounce_state 0) = Inr (bounce_state 8001)
   \<and> current_cell (bounce_state 8001) = Inr (CHR '' '')
   \<and> finished (bounce_state 8001) = Inr True
   \<and> run (bounce_state 0) = Inr (bounce_state 8001)
   \<and> length (self_history (bounce_state 8001)) = 8001"
proof -
  have s0: "steps 8000 (bounce_state 0) = Inr (bounce_state 8000)"
    using bounce_steps [of 8000 0] by simp
  have s1: "steps 8001 (bounce_state 0) = Inr (bounce_state 8001)"
    using bounce_steps [of 8001 0] by simp
  have c0: "current_cell (bounce_state 8000) = Inr (CHR ''@'')"
    by (simp add: bounce_cell)
  have c1: "current_cell (bounce_state 8001) = Inr (CHR '' '')"
    by (simp add: bounce_cell)
  have r: "run (bounce_state 0) = Inr (bounce_state 8001)"
    using bounce_run by (simp add: TIMEOUT_def)
  from finished_at_booth_or_past_timeout
         [of "bounce_state 0" bounce_board "bounce_state 0" 8000 "bounce_state 8000" "CHR ''@''"
             "bounce_state 8001"]
       bounce_init s0 c0
  have f0: "finished (bounce_state 8000) = Inr False" by simp
  from finished_at_booth_or_past_timeout
         [of "bounce_state 0" bounce_board "bounce_state 0" 8001 "bounce_state 8001" "CHR '' ''"
             "bounce_state 8001"]
       bounce_init s1 c1 r
  have f1: "finished (bounce_state 8001) = Inr True"
    and l: "length (self_history (bounce_state 8001)) = 8001" by simp_all
  from bounce_init s0 c0 f0 s1 c1 f1 r l show ?thesis by blast
qed

section \<open>Entry effects\<close>

lemma py_index_less: "py_index n i = Some k \<Longrightarrow> k < n"
  by (auto simp: py_index_def Let_def split: if_splits)

lemma current_cell_update [simp]:
  "current_cell (s\<lparr>self_in_beer_state := b\<rparr>) = current_cell s"
  "current_cell (s\<lparr>self_priorities := ps\<rparr>) = current_cell s"
  "current_cell (s\<lparr>self_history := h\<rparr>) = current_cell s"
  "current_cell (s\<lparr>self_current_direction := d\<rparr>) = current_cell s"
  by (simp_all add: current_cell_def split: sum.splits)

lemma current_cell_index:
  "current_cell s = Inr c \<longleftrightarrow>
     (\<exists>i j. py_index (length (self_rows s)) (self_x s) = Some i
        \<and> py_index (length (self_rows s ! i)) (self_y s) = Some j
        \<and> c = self_rows s ! i ! j)"
  by (auto simp: current_cell_def py_get_def split: option.splits)

lemma set_cell_index:
  assumes "py_index (length rows) x = Some i" and "py_index (length (rows ! i)) y = Some j"
  shows "set_cell rows x y v = Inr (rows[i := (rows ! i)[j := v]])"
  using assms by (simp add: set_cell_def py_get_def py_set_def)

lemma check_destroy_obstacle_erases:
  assumes "py_index (length (self_rows s)) (self_x s) = Some i"
    and "py_index (length (self_rows s ! i)) (self_y s) = Some j"
    and "self_rows s ! i ! j = OBSTACLE_BREAKABLE" and "self_in_beer_state s"
  shows "check_destroy_obstacle s =
           Inr (s\<lparr>self_rows := (self_rows s)[i := (self_rows s ! i)[j := CHR '' '']]\<rparr>)"
proof -
  have "current_cell s = Inr OBSTACLE_BREAKABLE"
    using assms by (auto simp: current_cell_index)
  then show ?thesis
    using assms by (simp add: check_destroy_obstacle_def set_cell_index)
qed

lemma check_destroy_obstacle_idle:
  assumes "current_cell s = Inr c" and "\<not> (c = OBSTACLE_BREAKABLE \<and> self_in_beer_state s)"
  shows "check_destroy_obstacle s = Inr s"
  using assms by (auto simp: check_destroy_obstacle_def)

lemma check_current_cell_by_cell:
  assumes "current_cell s = Inr c"
  shows "check_current_cell s =
     (if c = BEER_CHAR then Inr (s\<lparr>self_in_beer_state := \<not> self_in_beer_state s\<rparr>)
      else if c = INVERTER_CHAR then Inr (s\<lparr>self_priorities := rev (self_priorities s)\<rparr>)
      else if c = TELEPORT_CHAR then
        (case self_teleport s of
           None \<Rightarrow> Inl (TypeError, s)
         | Some d \<Rightarrow>
             (case d (self_x s, self_y s) of
                None \<Rightarrow> Inl (KeyError, s)
              | Some (x', y') \<Rightarrow> check_destroy_obstacle (s\<lparr>self_x := x', self_y := y'\<rparr>)))
      else check_destroy_obstacle s)"
proof -
  consider "c = BEER_CHAR" | "c = INVERTER_CHAR" | "c = TELEPORT_CHAR"
    | "c \<noteq> BEER_CHAR" "c \<noteq> INVERTER_CHAR" "c \<noteq> TELEPORT_CHAR" by blast
  then show ?thesis
  proof cases
    case 1
    then show ?thesis using assms
      by (simp add: check_current_cell_def check_beer_def check_inverter_def check_teleport_def
            check_destroy_obstacle_def char_defs)
  next
    case 2
    then show ?thesis using assms
      by (simp add: check_current_cell_def check_beer_def check_inverter_def check_teleport_def
            check_destroy_obstacle_def char_defs)
  next
    case 3
    then show ?thesis using assms
      by (simp add: check_current_cell_def check_beer_def check_inverter_def check_teleport_def
            char_defs split: option.splits)
  next
    case 4
    then show ?thesis using assms
      by (simp add: check_current_cell_def check_beer_def check_inverter_def check_teleport_def)
  qed
qed

lemma check_current_cell_unreadable:
  "current_cell s = Inl e \<Longrightarrow> check_current_cell s = Inl (e, s)"
  by (simp add: check_current_cell_def check_beer_def)

lemma move_result:
  assumes "move s c = Inr s'"
  shows "\<exists>dx dy. directions c = Some (dx, dy) \<and> self_x s' = self_x s + dx
           \<and> self_y s' = self_y s + dy \<and> self_current_direction s' = c"
  using assms by (auto simp: move_def Let_def split: option.splits prod.splits)

lemma try_priorities_moves:
  "try_priorities s ds = Inr s' \<Longrightarrow> \<exists>c. move s c = Inr s'"
  by (induction ds) (auto split: sum.splits if_splits)

lemma go_moves_from_entry:
  assumes "check_current_cell s = Inr s1" and "go s = Inr s'"
  shows "\<exists>c. move s1 c = Inr s'"
  using assms
  by (auto simp: go_def move_in_forced_direction_def move_via_priorities_def
        split: sum.splits if_splits dest: try_priorities_moves)

lemma directions_unit:
  "directions c = Some (dx, dy) \<Longrightarrow> \<bar>dx\<bar> + \<bar>dy\<bar> = 1"
  by (auto simp: directions_def split: if_splits)

text \<open>
  Claim C2 says that the entry effects are applied in the order beer, inverter,
  teleporter, destroy check before any move is chosen, and that the effects of the
  teleport destination are not applied in the same call but take effect on the next
  step. The last clause does not hold: \<open>go\<close> always executes a move after the entry
  effects, so the call that teleports also takes the walker off the destination, and the
  next call reads the cell the walker moved to. On the board below the walker teleports
  from (2, 1) to the teleporter at (1, 3) and moves south in the same call; the next call
  begins on the empty cell at (2, 3), applies no entry effect and moves on to the booth,
  where the driver's loop ends. The teleport effect of the destination took effect in no
  step.
\<close>

theorem teleport_destination_skipped_on_next_step:
  "check_current_cell teleport_state = Inr (teleport_state\<lparr>self_x := 1, self_y := 3\<rparr>)
   \<and> current_cell (teleport_state\<lparr>self_x := 1, self_y := 3\<rparr>) = Inr (CHR ''T'')
   \<and> go teleport_state =
       Inr (teleport_state\<lparr>self_x := 2, self_y := 3, self_history := [''SOUTH'', ''SOUTH'']\<rparr>)
   \<and> current_cell
         (teleport_state\<lparr>self_x := 2, self_y := 3, self_history := [''SOUTH'', ''SOUTH'']\<rparr>) =
       Inr (CHR '' '')
   \<and> check_current_cell
         (teleport_state\<lparr>self_x := 2, self_y := 3, self_history := [''SOUTH'', ''SOUTH'']\<rparr>) =
       Inr (teleport_state\<lparr>self_x := 2, self_y := 3, self_history := [''SOUTH'', ''SOUTH'']\<rparr>)
   \<and> go (teleport_state\<lparr>self_x := 2, self_y := 3, self_history := [''SOUTH'', ''SOUTH'']\<rparr>) =
       Inr (teleport_state\<lparr>self_x := 3, self_y := 3,
              self_history := [''SOUTH'', ''SOUTH'', ''SOUTH'']\<rparr>)
   \<and> run (teleport_state\<lparr>self_x := 1, self_history := []\<rparr>) =
       Inr (teleport_state\<lparr>self_x := 3, self_y := 3,
              self_history := [''SOUTH'', ''SOUTH'', ''SOUTH'']\<rparr>)"
proof -
  let ?arrived = "teleport_state\<lparr>self_x := 1, self_y := 3\<rparr>"
  let ?next = "teleport_state\<lparr>self_x := 2, self_y := 3, self_history := [''SOUTH'', ''SOUTH'']\<rparr>"
  let ?last = "teleport_state\<lparr>self_x := 3, self_y := 3,
                 self_history := [''SOUTH'', ''SOUTH'', ''SOUTH'']\<rparr>"
  have e: "check_current_cell teleport_state = Inr ?arrived"
    by (simp add: eval_defs teleport_state_def teleport_board_def)
  have c: "current_cell ?arrived = Inr (CHR ''T'')"
    by (simp add: eval_defs teleport_state_def teleport_board_def)
  have g: "go teleport_state = Inr ?next"
    by (simp add: eval_defs teleport_state_def teleport_board_def)
  have c': "current_cell ?next = Inr (CHR '' '')"
    by (simp add: eval_defs teleport_state_def teleport_board_def)
  have e': "check_current_cell ?next = Inr ?next"
    by (simp add: eval_defs teleport_state_def teleport_board_def)
  have g': "go ?next = Inr ?last"
    by (simp add: eval_defs teleport_state_def teleport_board_def)
  have r: "run (teleport_state\<lparr>self_x := 1, self_history := []\<rparr>) = Inr ?last"
    by (simp add: run.simps eval_defs teleport_state_def teleport_board_def)
  from e c g c' e' g' r show ?thesis by blast
qed

text \<open>
  Claim C2 as amended. A call of \<open>go\<close> first applies the entry effects to the cell \<open>c\<close> the
  walker stands on, and only then moves. With the cell readable, the effects are: on \<open>B\<close>
  the beer flag flips; on \<open>I\<close> the priority list is reversed; on \<open>T\<close> the position becomes
  the coordinate that the teleport dictionary gives for it, and the destroy check then
  reads the cell at the new position; on any other cell the destroy check reads the
  walker's cell. The destroy check writes a space over a cell that holds \<open>X\<close> while the
  beer flag is set, and changes nothing otherwise. After a teleport the position is the
  destination and the beer flag and the priority list are as before the call, whatever the
  destination holds: its beer, inverter and teleport effects are not applied in this call.
  An exception of the entry effects ends the call, and a move that is executed starts from
  the position the entry effects left, goes one cell in one of the four directions, and
  keeps the board, the flag and the priorities they left. So the call that teleports
  leaves the walker one cell away from the destination's coordinate, and the next call
  applies the entry effects of the cell the walker moved to, none when that cell is inert:
  the destination's effects are applied only by a later call that begins on it.
\<close>

theorem entry_effects_then_move:
  assumes cell: "current_cell s = Inr c"
  shows "check_current_cell s =
     (if c = CHR ''B'' then Inr (s\<lparr>self_in_beer_state := \<not> self_in_beer_state s\<rparr>)
      else if c = CHR ''I'' then Inr (s\<lparr>self_priorities := rev (self_priorities s)\<rparr>)
      else if c = CHR ''T'' then
        (case self_teleport s of
           None \<Rightarrow> Inl (TypeError, s)
         | Some d \<Rightarrow>
             (case d (self_x s, self_y s) of
                None \<Rightarrow> Inl (KeyError, s)
              | Some (x', y') \<Rightarrow> check_destroy_obstacle (s\<lparr>self_x := x', self_y := y'\<rparr>)))
      else check_destroy_obstacle s)
   \<and> (\<forall>t i j. py_index (length (self_rows t)) (self_x t) = Some i
          \<and> py_index (length (self_rows t ! i)) (self_y t) = Some j \<longrightarrow>
        check_destroy_obstacle t =
          (if self_rows t ! i ! j = CHR ''X'' \<and> self_in_beer_state t
           then Inr (t\<lparr>self_rows := (self_rows t)[i := (self_rows t ! i)[j := CHR '' '']]\<rparr>)
           else Inr t))
   \<and> (\<forall>d x' y' s1. c = CHR ''T'' \<and> self_teleport s = Some d
          \<and> d (self_x s, self_y s) = Some (x', y') \<and> check_current_cell s = Inr s1 \<longrightarrow>
        self_x s1 = x' \<and> self_y s1 = y'
        \<and> self_in_beer_state s1 = self_in_beer_state s
        \<and> self_priorities s1 = self_priorities s)
   \<and> (\<forall>r. check_current_cell s = Inl r \<longrightarrow> go s = Inl r)
   \<and> (\<forall>s1 s'. check_current_cell s = Inr s1 \<and> go s = Inr s' \<longrightarrow>
        (\<exists>dx dy. directions (self_current_direction s') = Some (dx, dy)
           \<and> \<bar>dx\<bar> + \<bar>dy\<bar> = 1
           \<and> self_x s' = self_x s1 + dx \<and> self_y s' = self_y s1 + dy)
        \<and> (self_x s', self_y s') \<noteq> (self_x s1, self_y s1)
        \<and> self_rows s' = self_rows s1
        \<and> self_in_beer_state s' = self_in_beer_state s1
        \<and> self_priorities s' = self_priorities s1
        \<and> (\<forall>c'. current_cell s' = Inr c' \<and> c' \<noteq> CHR ''B'' \<and> c' \<noteq> CHR ''I''
               \<and> c' \<noteq> CHR ''T'' \<and> c' \<noteq> CHR ''X'' \<longrightarrow>
             check_current_cell s' = Inr s'))"
proof (intro conjI allI impI)
  show "check_current_cell s =
     (if c = CHR ''B'' then Inr (s\<lparr>self_in_beer_state := \<not> self_in_beer_state s\<rparr>)
      else if c = CHR ''I'' then Inr (s\<lparr>self_priorities := rev (self_priorities s)\<rparr>)
      else if c = CHR ''T'' then
        (case self_teleport s of
           None \<Rightarrow> Inl (TypeError, s)
         | Some d \<Rightarrow>
             (case d (self_x s, self_y s) of
                None \<Rightarrow> Inl (KeyError, s)
              | Some (x', y') \<Rightarrow> check_destroy_obstacle (s\<lparr>self_x := x', self_y := y'\<rparr>)))
      else check_destroy_obstacle s)"
    using check_current_cell_by_cell [OF cell] by (simp only: char_defs)
next
  fix t :: bender and i j
  assume ij: "py_index (length (self_rows t)) (self_x t) = Some i
          \<and> py_index (length (self_rows t ! i)) (self_y t) = Some j"
  show "check_destroy_obstacle t =
          (if self_rows t ! i ! j = CHR ''X'' \<and> self_in_beer_state t
           then Inr (t\<lparr>self_rows := (self_rows t)[i := (self_rows t ! i)[j := CHR '' '']]\<rparr>)
           else Inr t)"
  proof (cases "self_rows t ! i ! j = CHR ''X'' \<and> self_in_beer_state t")
    case True
    then show ?thesis
      using ij check_destroy_obstacle_erases [of t i j] by (simp add: char_defs)
  next
    case False
    moreover have "current_cell t = Inr (self_rows t ! i ! j)"
      using ij by (auto simp: current_cell_index)
    ultimately have "check_destroy_obstacle t = Inr t"
      using check_destroy_obstacle_idle [of t "self_rows t ! i ! j"] by (simp add: char_defs)
    with False show ?thesis by auto
  qed
next
  fix d x' y' s1
  assume h: "c = CHR ''T'' \<and> self_teleport s = Some d
          \<and> d (self_x s, self_y s) = Some (x', y') \<and> check_current_cell s = Inr s1"
  let ?t = "s\<lparr>self_x := x', self_y := y'\<rparr>"
  from h have tc: "c = TELEPORT_CHAR" and td: "self_teleport s = Some d"
    and tp: "d (self_x s, self_y s) = Some (x', y')" and e: "check_current_cell s = Inr s1"
    by (simp_all add: char_defs)
  have "check_current_cell s = check_destroy_obstacle ?t"
    unfolding check_current_cell_by_cell [OF cell] using tc td tp by (simp add: char_defs)
  with e have "check_destroy_obstacle ?t = Inr s1" by simp
  then have "object_after (check_destroy_obstacle ?t) = s1" by simp
  then have "self_x s1 = self_x ?t" "self_y s1 = self_y ?t"
      "self_in_beer_state s1 = self_in_beer_state ?t" "self_priorities s1 = self_priorities ?t"
    using check_destroy_obstacle_keeps [of ?t] by metis+
  then show "self_x s1 = x'" "self_y s1 = y'"
      "self_in_beer_state s1 = self_in_beer_state s" "self_priorities s1 = self_priorities s"
    by simp_all
next
  fix r
  assume "check_current_cell s = Inl r"
  then show "go s = Inl r" by (rule go_entry_raises)
next
  fix s1 s'
  assume h: "check_current_cell s = Inr s1 \<and> go s = Inr s'"
  then obtain k where m: "move s1 k = Inr s'"
    using go_moves_from_entry [of s s1 s'] by blast
  from move_result [OF m] obtain dx dy where d: "directions k = Some (dx, dy)"
    and p: "self_x s' = self_x s1 + dx" "self_y s' = self_y s1 + dy"
    and k: "self_current_direction s' = k" by blast
  from d have u: "\<bar>dx\<bar> + \<bar>dy\<bar> = 1" by (rule directions_unit)
  from d p k u show "\<exists>dx dy. directions (self_current_direction s') = Some (dx, dy)
           \<and> \<bar>dx\<bar> + \<bar>dy\<bar> = 1
           \<and> self_x s' = self_x s1 + dx \<and> self_y s' = self_y s1 + dy"
    by blast
  from p u show "(self_x s', self_y s') \<noteq> (self_x s1, self_y s1)" by auto
  from h have e: "check_current_cell s = Inr s1" and g: "object_after (go s) = s'" by simp_all
  show "self_rows s' = self_rows s1" "self_in_beer_state s' = self_in_beer_state s1"
      "self_priorities s' = self_priorities s1"
    using go_after_entry_keeps [OF e] g by simp_all
next
  fix s1 s' :: bender and c'
  assume "current_cell s' = Inr c' \<and> c' \<noteq> CHR ''B'' \<and> c' \<noteq> CHR ''I''
               \<and> c' \<noteq> CHR ''T'' \<and> c' \<noteq> CHR ''X''"
  then show "check_current_cell s' = Inr s'"
    by (intro check_current_cell_inert [of s' c']) (simp_all add: char_defs)
qed

theorem entry_effects_then_move_witness:
  "Bender_init teleport_board = Inr (teleport_state\<lparr>self_x := 1, self_history := []\<rparr>)
   \<and> go (teleport_state\<lparr>self_x := 1, self_history := []\<rparr>) = Inr teleport_state
   \<and> current_cell teleport_state = Inr (CHR ''T'')
   \<and> check_current_cell teleport_state = Inr (teleport_state\<lparr>self_x := 1, self_y := 3\<rparr>)
   \<and> current_cell (teleport_state\<lparr>self_x := 1, self_y := 3\<rparr>) = Inr (CHR ''T'')
   \<and> go teleport_state =
       Inr (teleport_state\<lparr>self_x := 2, self_y := 3, self_history := [''SOUTH'', ''SOUTH'']\<rparr>)
   \<and> (2, 3) \<noteq> (1 :: int, 3 :: int)
   \<and> check_current_cell
         (teleport_state\<lparr>self_x := 2, self_y := 3, self_history := [''SOUTH'', ''SOUTH'']\<rparr>) =
       Inr (teleport_state\<lparr>self_x := 2, self_y := 3, self_history := [''SOUTH'', ''SOUTH'']\<rparr>)"
proof -
  have i: "Bender_init teleport_board = Inr (teleport_state\<lparr>self_x := 1, self_history := []\<rparr>)"
    by (simp add: eval_defs teleport_state_def teleport_board_def)
  have g0: "go (teleport_state\<lparr>self_x := 1, self_history := []\<rparr>) = Inr teleport_state"
    by (simp add: eval_defs teleport_state_def teleport_board_def)
  have c: "current_cell teleport_state = Inr (CHR ''T'')"
    by (simp add: eval_defs teleport_state_def teleport_board_def)
  have c': "current_cell (teleport_state\<lparr>self_x := 1, self_y := 3\<rparr>) = Inr (CHR ''T'')"
    by (simp add: eval_defs teleport_state_def teleport_board_def)
  have d: "check_destroy_obstacle (teleport_state\<lparr>self_x := 1, self_y := 3\<rparr>) =
      Inr (teleport_state\<lparr>self_x := 1, self_y := 3\<rparr>)"
    using c' by (simp add: check_destroy_obstacle_def char_defs)
  have t: "self_teleport teleport_state = Some [(1, 3) \<mapsto> (2, 1), (2, 1) \<mapsto> (1, 3)]"
      "self_x teleport_state = 2" "self_y teleport_state = 1"
    by (simp_all add: teleport_state_def)
  from entry_effects_then_move [OF c]
  have e: "check_current_cell teleport_state = Inr (teleport_state\<lparr>self_x := 1, self_y := 3\<rparr>)"
    by (simp add: t d)
  have g: "go teleport_state =
       Inr (teleport_state\<lparr>self_x := 2, self_y := 3, self_history := [''SOUTH'', ''SOUTH'']\<rparr>)"
    by (simp add: eval_defs teleport_state_def teleport_board_def)
  let ?next = "teleport_state\<lparr>self_x := 2, self_y := 3, self_history := [''SOUTH'', ''SOUTH'']\<rparr>"
  have n: "current_cell ?next = Inr (CHR '' '')"
    by (simp add: eval_defs teleport_state_def teleport_board_def)
  from entry_effects_then_move [OF c] e g n
  have e': "check_current_cell ?next = Inr ?next" by blast
  have "(2, 3) \<noteq> (1 :: int, 3 :: int)" by simp
  with i g0 c e c' g e' show ?thesis by blast
qed

section \<open>Inverters\<close>

lemma check_current_cell_priorities:
  "self_priorities (object_after (check_current_cell s)) =
     (if current_cell s = Inr INVERTER_CHAR then rev (self_priorities s) else self_priorities s)"
proof (cases "current_cell s")
  case (Inl e)
  then show ?thesis by (simp add: check_current_cell_unreadable)
next
  case (Inr c)
  show ?thesis
    unfolding check_current_cell_by_cell [OF Inr]
    using Inr
    by (simp add: char_defs check_destroy_obstacle_keeps split: option.splits)
qed

lemma go_priorities:
  "self_priorities (object_after (go s)) =
     (if current_cell s = Inr INVERTER_CHAR then rev (self_priorities s) else self_priorities s)"
proof (cases "check_current_cell s")
  case (Inl r)
  then show ?thesis
    using check_current_cell_priorities [of s] by (simp add: go_entry_raises)
next
  case (Inr s1)
  then show ?thesis
    using check_current_cell_priorities [of s] go_after_entry_keeps(2) [OF Inr] by simp
qed

lemma steps_priorities:
  "self_priorities (object_after (steps n s)) =
     (if even (inverter_entries n s) then self_priorities s else rev (self_priorities s))"
proof (induction n arbitrary: s)
  case 0
  then show ?case by simp
next
  case (Suc n)
  show ?case
  proof (cases "go s")
    case (Inl r)
    then show ?thesis using go_priorities [of s] by simp
  next
    case (Inr s')
    then show ?thesis using go_priorities [of s] Suc [of s'] by simp
  qed
qed

text \<open>
  Claim C8. A call of \<open>go\<close> that begins on an inverter cell leaves the priority list
  reversed, and any other call leaves it as it was, whether the call returns or raises.
  Reversing twice gives the list back. Hence in a run from construction the priority list
  after \<open>n\<close> calls is the default order when the number of calls that began on an inverter
  is even, and the reverse of the default order when it is odd.
\<close>

theorem inverter_entries_parity:
  "self_priorities (object_after (go s)) =
     (if current_cell s = Inr (CHR ''I'') then rev (self_priorities s) else self_priorities s)
   \<and> rev (rev (self_priorities s)) = self_priorities s
   \<and> (Bender_init rows = Inr s0 \<longrightarrow>
        self_priorities (object_after (steps n s0)) =
          (if even (inverter_entries n s0) then priorities else rev priorities))"
proof (intro conjI impI)
  show "self_priorities (object_after (go s)) =
     (if current_cell s = Inr (CHR ''I'') then rev (self_priorities s) else self_priorities s)"
    using go_priorities [of s] by (simp add: INVERTER_CHAR_def)
next
  show "rev (rev (self_priorities s)) = self_priorities s" by simp
next
  assume "Bender_init rows = Inr s0"
  then have "self_priorities s0 = priorities" by (rule Bender_init_fields)
  with steps_priorities [of n s0]
  show "self_priorities (object_after (steps n s0)) =
          (if even (inverter_entries n s0) then priorities else rev priorities)"
    by simp
qed

theorem inverter_entries_parity_witness:
  "Bender_init inverter_board = Inr inverter_start
   \<and> inverter_entries 2 inverter_start = 1
   \<and> self_priorities (object_after (steps 2 inverter_start)) = ''wnes''
   \<and> inverter_entries 3 inverter_start = 2
   \<and> self_priorities (object_after (steps 3 inverter_start)) = ''senw''"
proof -
  have i: "Bender_init inverter_board = Inr inverter_start"
    by (simp add: eval_defs inverter_start_def inverter_board_def)
  have e2: "inverter_entries 2 inverter_start = 1"
    by (simp add: numeral_2_eq_2 eval_defs inverter_start_def inverter_board_def)
  have e3: "inverter_entries 3 inverter_start = 2"
    by (simp add: numeral_3_eq_3 eval_defs inverter_start_def inverter_board_def)
  from inverter_entries_parity [of inverter_start inverter_board inverter_start 2] i e2
  have p2: "self_priorities (object_after (steps 2 inverter_start)) = ''wnes''"
    by (simp add: priorities_def)
  from inverter_entries_parity [of inverter_start inverter_board inverter_start 3] i e3
  have p3: "self_priorities (object_after (steps 3 inverter_start)) = ''senw''"
    by (simp add: priorities_def)
  from i e2 p2 e3 p3 show ?thesis by blast
qed

section \<open>Construction and the teleport dictionary\<close>

lemma teleporters_in_row_length:
  "length (teleporters_in_row k (enumerate m row)) = count_list row TELEPORT_CHAR"
  by (induction row arbitrary: m) simp_all

lemma teleporters_in_rows_length:
  "length (teleporters_in_rows (enumerate m rows)) = count_list (concat rows) TELEPORT_CHAR"
  by (induction rows arbitrary: m)
     (simp_all add: teleporters_in_row_length)

lemma teleport_locations_length:
  "length (teleport_locations rows) = count_list (concat rows) TELEPORT_CHAR"
  by (simp add: teleport_locations_def teleporters_in_rows_length)

lemma get_teleporters_None:
  "get_teleporters rows = None \<longleftrightarrow> count_list (concat rows) TELEPORT_CHAR < 2"
proof -
  have "get_teleporters rows = None \<longleftrightarrow> length (teleport_locations rows) < 2"
    by (auto simp: get_teleporters_def Let_def py_get_def py_index_def split: sum.splits)
  then show ?thesis by (simp add: teleport_locations_length)
qed

lemma initial_cell_in_row_None:
  "initial_cell_in_row k (enumerate m row) = None \<longleftrightarrow> BENDER_CHAR \<notin> set row"
  by (induction row arbitrary: m) auto

lemma initial_cell_in_rows_None:
  "initial_cell_in_rows (enumerate m rows) = None \<longleftrightarrow> BENDER_CHAR \<notin> set (concat rows)"
proof (induction rows arbitrary: m)
  case Nil
  then show ?case by simp
next
  case (Cons row rows)
  show ?case
  proof (cases "initial_cell_in_row m (enumerate 0 row)")
    case None
    then have "BENDER_CHAR \<notin> set row"
      by (simp add: initial_cell_in_row_None)
    with None Cons.IH [of "Suc m"] show ?thesis by simp
  next
    case (Some p)
    then have "BENDER_CHAR \<in> set row"
      using initial_cell_in_row_None [of m 0 row] by auto
    with Some show ?thesis by simp
  qed
qed

lemma get_initial_cell_None:
  "get_initial_cell rows = None \<longleftrightarrow> BENDER_CHAR \<notin> set (concat rows)"
  by (simp add: get_initial_cell_def initial_cell_in_rows_None)

lemma Bender_init_raises:
  "Bender_init rows = Inl e \<longleftrightarrow> e = TypeError \<and> BENDER_CHAR \<notin> set (concat rows)"
  using get_initial_cell_None [of rows]
  by (auto simp: Bender_init_def split: option.splits)

lemma Bender_init_returns:
  assumes "BENDER_CHAR \<in> set (concat rows)"
  shows "\<exists>s0. Bender_init rows = Inr s0"
proof (cases "Bender_init rows")
  case (Inl e)
  with assms show ?thesis by (simp add: Bender_init_raises)
next
  case (Inr s0)
  then show ?thesis by blast
qed

lemma check_teleport_unpaired:
  assumes "self_teleport s = None" and "current_cell s = Inr TELEPORT_CHAR"
  shows "check_teleport s = Inl (TypeError, s)" and "go s = Inl (TypeError, s)"
proof -
  show "check_teleport s = Inl (TypeError, s)"
    using assms by (simp add: check_teleport_def)
  have "check_current_cell s = Inl (TypeError, s)"
    using assms check_current_cell_by_cell [of s TELEPORT_CHAR] by (simp add: char_defs)
  then show "go s = Inl (TypeError, s)" by (rule go_entry_raises)
qed

text \<open>
  Claim C6 says that construction fails both on a board without a start marker and on a
  board with exactly one teleporter marker. The second half does not hold: the bare
  \<open>except\<close> of \<open>get_teleporters\<close> turns the missing second location into \<open>None\<close>, and on
  the board below, which has one teleporter, construction returns an object whose
  teleport dictionary is \<open>None\<close>.
\<close>

theorem lone_teleporter_construction_succeeds:
  "count_list (concat lone_teleporter_board) (CHR ''T'') = 1
   \<and> Bender_init lone_teleporter_board = Inr lone_teleporter_start
   \<and> self_teleport lone_teleporter_start = None"
  by (simp add: eval_defs lone_teleporter_start_def lone_teleporter_board_def)

text \<open>
  Claim C6 as amended. Construction raises at once, with the \<open>TypeError\<close> of unpacking the
  missing start cell, when no cell of the board holds the start marker. When the board
  has a start marker and exactly one teleporter marker, construction returns an object
  over the given board, with an empty history and the teleport dictionary \<open>None\<close>.
\<close>

theorem construction_fails_without_start_only:
  "(CHR ''@'' \<notin> set (concat rows) \<longrightarrow> Bender_init rows = Inl TypeError)
   \<and> (CHR ''@'' \<in> set (concat rows) \<and> count_list (concat rows) (CHR ''T'') = 1 \<longrightarrow>
        (\<exists>s. Bender_init rows = Inr s \<and> self_teleport s = None \<and> self_rows s = rows
           \<and> self_history s = []))"
proof (intro conjI impI)
  assume "CHR ''@'' \<notin> set (concat rows)"
  then show "Bender_init rows = Inl TypeError"
    using Bender_init_raises [of rows TypeError] by (simp add: BENDER_CHAR_def)
next
  assume h: "CHR ''@'' \<in> set (concat rows) \<and> count_list (concat rows) (CHR ''T'') = 1"
  then obtain s where i: "Bender_init rows = Inr s"
    using Bender_init_returns [of rows] by (auto simp: BENDER_CHAR_def)
  from h have "get_teleporters rows = None"
    by (simp add: get_teleporters_None TELEPORT_CHAR_def)
  with Bender_init_fields [OF i] have "self_teleport s = None" "self_rows s = rows"
      "self_history s = []"
    by simp_all
  with i show "\<exists>s. Bender_init rows = Inr s \<and> self_teleport s = None \<and> self_rows s = rows
           \<and> self_history s = []"
    by blast
qed

theorem construction_fails_without_start_only_witness:
  "CHR ''@'' \<notin> set (concat unmarked_board)
   \<and> Bender_init unmarked_board = Inl TypeError
   \<and> CHR ''@'' \<in> set (concat lone_teleporter_board)
   \<and> count_list (concat lone_teleporter_board) (CHR ''T'') = 1
   \<and> (\<exists>s. Bender_init lone_teleporter_board = Inr s \<and> self_teleport s = None)"
proof -
  have u: "CHR ''@'' \<notin> set (concat unmarked_board)"
    by (simp add: unmarked_board_def)
  have a: "CHR ''@'' \<in> set (concat lone_teleporter_board)"
    and c: "count_list (concat lone_teleporter_board) (CHR ''T'') = 1"
    by (simp_all add: lone_teleporter_board_def)
  from construction_fails_without_start_only [of unmarked_board] u
  have f: "Bender_init unmarked_board = Inl TypeError" by blast
  from construction_fails_without_start_only [of lone_teleporter_board] a c
  have "\<exists>s. Bender_init lone_teleporter_board = Inr s \<and> self_teleport s = None" by blast
  with u f a c show ?thesis by blast
qed

text \<open>
  Claim C10. On a board with a start marker and exactly one teleporter marker,
  construction returns an object whose teleport dictionary is \<open>None\<close>; and in a run from
  such a construction, a call of \<open>go\<close> that begins with the walker on the teleporter cell
  raises \<open>TypeError\<close> in \<open>check_teleport\<close>, where \<open>None\<close> is subscripted, leaving the object
  as it was. The lone teleporter is thus not inert, and on the board below the walker
  reaches it with its first move.
\<close>

theorem lone_teleporter_raises_on_entry:
  "(CHR ''@'' \<in> set (concat rows) \<and> count_list (concat rows) (CHR ''T'') = 1 \<longrightarrow>
      (\<exists>s0. Bender_init rows = Inr s0 \<and> self_teleport s0 = None))
   \<and> (Bender_init rows = Inr s0 \<and> count_list (concat rows) (CHR ''T'') = 1
        \<and> steps n s0 = Inr s \<and> current_cell s = Inr (CHR ''T'') \<longrightarrow>
      check_teleport s = Inl (TypeError, s) \<and> go s = Inl (TypeError, s))"
proof (intro conjI impI)
  assume h: "CHR ''@'' \<in> set (concat rows) \<and> count_list (concat rows) (CHR ''T'') = 1"
  then obtain s0 where i: "Bender_init rows = Inr s0"
    using Bender_init_returns [of rows] by (auto simp: BENDER_CHAR_def)
  from h have "get_teleporters rows = None"
    by (simp add: get_teleporters_None TELEPORT_CHAR_def)
  with Bender_init_fields(3) [OF i] have "self_teleport s0 = None" by simp
  with i show "\<exists>s0. Bender_init rows = Inr s0 \<and> self_teleport s0 = None" by blast
next
  assume h: "Bender_init rows = Inr s0 \<and> count_list (concat rows) (CHR ''T'') = 1
        \<and> steps n s0 = Inr s \<and> current_cell s = Inr (CHR ''T'')"
  then have i: "Bender_init rows = Inr s0" by blast
  from h have "get_teleporters rows = None"
    by (simp add: get_teleporters_None TELEPORT_CHAR_def)
  with Bender_init_fields(3) [OF i] have "self_teleport s0 = None" by simp
  moreover from h have "object_after (steps n s0) = s" by simp
  ultimately have none: "self_teleport s = None"
    using steps_teleport [of n s0] by simp
  from h have cell: "current_cell s = Inr TELEPORT_CHAR" by (simp add: TELEPORT_CHAR_def)
  from none cell show "check_teleport s = Inl (TypeError, s)" "go s = Inl (TypeError, s)"
    by (rule check_teleport_unpaired)+
qed

theorem lone_teleporter_raises_on_entry_witness:
  "CHR ''@'' \<in> set (concat lone_teleporter_board)
   \<and> count_list (concat lone_teleporter_board) (CHR ''T'') = 1
   \<and> Bender_init lone_teleporter_board = Inr lone_teleporter_start
   \<and> steps 1 lone_teleporter_start =
       Inr (lone_teleporter_start\<lparr>self_x := 2, self_history := [''SOUTH'']\<rparr>)
   \<and> current_cell (lone_teleporter_start\<lparr>self_x := 2, self_history := [''SOUTH'']\<rparr>) =
       Inr (CHR ''T'')
   \<and> go (lone_teleporter_start\<lparr>self_x := 2, self_history := [''SOUTH'']\<rparr>) =
       Inl (TypeError, lone_teleporter_start\<lparr>self_x := 2, self_history := [''SOUTH'']\<rparr>)
   \<and> run lone_teleporter_start =
       Inl (TypeError, lone_teleporter_start\<lparr>self_x := 2, self_history := [''SOUTH'']\<rparr>)"
proof -
  let ?t = "lone_teleporter_start\<lparr>self_x := 2, self_history := [''SOUTH'']\<rparr>"
  have a: "CHR ''@'' \<in> set (concat lone_teleporter_board)"
    and c: "count_list (concat lone_teleporter_board) (CHR ''T'') = 1"
    by (simp_all add: lone_teleporter_board_def)
  have i: "Bender_init lone_teleporter_board = Inr lone_teleporter_start"
    by (simp add: eval_defs lone_teleporter_start_def lone_teleporter_board_def)
  have g: "go lone_teleporter_start = Inr ?t"
    by (simp add: eval_defs lone_teleporter_start_def lone_teleporter_board_def)
  then have s: "steps 1 lone_teleporter_start = Inr ?t" by simp
  have t: "current_cell ?t = Inr (CHR ''T'')"
    by (simp add: eval_defs lone_teleporter_start_def lone_teleporter_board_def)
  from lone_teleporter_raises_on_entry
         [of lone_teleporter_board lone_teleporter_start 1 ?t] i c s t
  have e: "go ?t = Inl (TypeError, ?t)" by blast
  have f0: "finished lone_teleporter_start = Inr False"
    by (simp add: eval_defs lone_teleporter_start_def lone_teleporter_board_def)
  have f1: "finished ?t = Inr False"
    by (simp add: eval_defs lone_teleporter_start_def lone_teleporter_board_def)
  have r: "run lone_teleporter_start = Inl (TypeError, ?t)"
    by (simp add: run.simps [of lone_teleporter_start] run.simps [of ?t] f0 f1 g e)
  from a c i s t e r show ?thesis by blast
qed

section \<open>The board changes only where an obstacle is destroyed\<close>

lemma check_destroy_obstacle_rows:
  "self_rows (object_after (check_destroy_obstacle t)) = self_rows t \<or>
   (self_in_beer_state t \<and>
    (\<exists>a b. py_index (length (self_rows t)) (self_x t) = Some a
       \<and> py_index (length (self_rows t ! a)) (self_y t) = Some b
       \<and> self_rows t ! a ! b = OBSTACLE_BREAKABLE
       \<and> self_rows (object_after (check_destroy_obstacle t)) =
           (self_rows t)[a := (self_rows t ! a)[b := CHR '' '']]))"
proof (cases "current_cell t")
  case (Inl e)
  then show ?thesis by (simp add: check_destroy_obstacle_def)
next
  case (Inr c)
  then obtain a b where a: "py_index (length (self_rows t)) (self_x t) = Some a"
    and b: "py_index (length (self_rows t ! a)) (self_y t) = Some b"
    and c: "c = self_rows t ! a ! b"
    by (auto simp: current_cell_index)
  show ?thesis
  proof (cases "c = OBSTACLE_BREAKABLE \<and> self_in_beer_state t")
    case True
    with a b c have "check_destroy_obstacle t =
        Inr (t\<lparr>self_rows := (self_rows t)[a := (self_rows t ! a)[b := CHR '' '']]\<rparr>)"
      by (intro check_destroy_obstacle_erases) simp_all
    with True a b c show ?thesis by auto
  next
    case False
    with Inr have "check_destroy_obstacle t = Inr t"
      by (rule check_destroy_obstacle_idle)
    then show ?thesis by simp
  qed
qed

lemma rows_after_destroy:
  assumes "self_rows t = self_rows s" and "r = check_destroy_obstacle t"
  shows "self_rows (object_after r) = self_rows s \<or>
   (self_in_beer_state (object_after r) \<and>
    (\<exists>a b. py_index (length (self_rows s)) (self_x (object_after r)) = Some a
       \<and> py_index (length (self_rows s ! a)) (self_y (object_after r)) = Some b
       \<and> self_rows s ! a ! b = OBSTACLE_BREAKABLE
       \<and> self_rows (object_after r) = (self_rows s)[a := (self_rows s ! a)[b := CHR '' '']]))"
  using check_destroy_obstacle_rows [of t] assms
  by (simp add: check_destroy_obstacle_keeps)

lemma check_current_cell_rows:
  "self_rows (object_after (check_current_cell s)) = self_rows s \<or>
   (self_in_beer_state (object_after (check_current_cell s)) \<and>
    (\<exists>a b. py_index (length (self_rows s)) (self_x (object_after (check_current_cell s))) = Some a
       \<and> py_index (length (self_rows s ! a)) (self_y (object_after (check_current_cell s))) = Some b
       \<and> self_rows s ! a ! b = OBSTACLE_BREAKABLE
       \<and> self_rows (object_after (check_current_cell s)) =
           (self_rows s)[a := (self_rows s ! a)[b := CHR '' '']]))"
proof (cases "current_cell s")
  case (Inl e)
  then show ?thesis by (simp add: check_current_cell_unreadable)
next
  case (Inr c)
  note by_cell = check_current_cell_by_cell [OF Inr]
  show ?thesis
  proof (cases "c = BEER_CHAR \<or> c = INVERTER_CHAR")
    case True
    then show ?thesis by (auto simp: by_cell)
  next
    case plain: False
    show ?thesis
    proof (cases "c = TELEPORT_CHAR")
      case False
      with plain have "check_current_cell s = check_destroy_obstacle s"
        by (simp add: by_cell)
      then show ?thesis
        by (intro rows_after_destroy [of s]) simp_all
    next
      case True
      show ?thesis
      proof (cases "self_teleport s")
        case None
        with plain True show ?thesis by (simp add: by_cell)
      next
        case (Some d)
        show ?thesis
        proof (cases "d (self_x s, self_y s)")
          case None
          with plain True Some show ?thesis by (simp add: by_cell)
        next
          case target: (Some q)
          obtain x' y' where q: "q = (x', y')" by (cases q)
          with plain True Some target
          have "check_current_cell s = check_destroy_obstacle (s\<lparr>self_x := x', self_y := y'\<rparr>)"
            by (simp add: by_cell)
          then show ?thesis
            by (intro rows_after_destroy [of "s\<lparr>self_x := x', self_y := y'\<rparr>"]) simp_all
        qed
      qed
    qed
  qed
qed

lemma go_rows_entry:
  "self_rows (object_after (go s)) = self_rows (object_after (check_current_cell s))"
proof (cases "check_current_cell s")
  case (Inl r)
  then show ?thesis by (simp add: go_entry_raises)
next
  case (Inr s1)
  then show ?thesis using go_after_entry_keeps(1) [OF Inr] by simp
qed

lemma go_beer_entry:
  "self_in_beer_state (object_after (go s)) =
     self_in_beer_state (object_after (check_current_cell s))"
proof (cases "check_current_cell s")
  case (Inl r)
  then show ?thesis by (simp add: go_entry_raises)
next
  case (Inr s1)
  then show ?thesis using go_after_entry_keeps(3) [OF Inr] by simp
qed

lemma nth_list_update_read:
  "i < length xs \<Longrightarrow> xs[a := v] ! i = (if a = i then v else xs ! i)"
  by (cases "a = i") simp_all

lemma erased_cellwise:
  assumes "rows' = rows \<or> (\<exists>a b. rows ! a ! b = OBSTACLE_BREAKABLE
             \<and> rows' = rows[a := (rows ! a)[b := CHR '' '']])"
  shows "length rows' = length rows"
    and "i < length rows \<Longrightarrow> length (rows' ! i) = length (rows ! i)"
    and "i < length rows \<Longrightarrow> j < length (rows ! i) \<Longrightarrow> rows ! i ! j \<noteq> OBSTACLE_BREAKABLE \<Longrightarrow>
           rows' ! i ! j = rows ! i ! j"
  using assms by (auto simp: nth_list_update_read)

lemma go_cellwise:
  shows "length (self_rows (object_after (go s))) = length (self_rows s)"
    and "i < length (self_rows s) \<Longrightarrow>
           length (self_rows (object_after (go s)) ! i) = length (self_rows s ! i)"
    and "i < length (self_rows s) \<Longrightarrow> j < length (self_rows s ! i) \<Longrightarrow>
           self_rows s ! i ! j \<noteq> OBSTACLE_BREAKABLE \<Longrightarrow>
           self_rows (object_after (go s)) ! i ! j = self_rows s ! i ! j"
proof -
  have e: "self_rows (object_after (go s)) = self_rows s \<or>
      (\<exists>a b. self_rows s ! a ! b = OBSTACLE_BREAKABLE
         \<and> self_rows (object_after (go s)) = (self_rows s)[a := (self_rows s ! a)[b := CHR '' '']])"
    using check_current_cell_rows [of s] unfolding go_rows_entry [of s] by blast
  show "length (self_rows (object_after (go s))) = length (self_rows s)"
    using e by (rule erased_cellwise)
  show "i < length (self_rows s) \<Longrightarrow>
           length (self_rows (object_after (go s)) ! i) = length (self_rows s ! i)"
    using e by (rule erased_cellwise)
  show "i < length (self_rows s) \<Longrightarrow> j < length (self_rows s ! i) \<Longrightarrow>
           self_rows s ! i ! j \<noteq> OBSTACLE_BREAKABLE \<Longrightarrow>
           self_rows (object_after (go s)) ! i ! j = self_rows s ! i ! j"
    using e by (rule erased_cellwise)
qed

lemma steps_cellwise:
  "length (self_rows (object_after (steps n s))) = length (self_rows s) \<and>
   (\<forall>i<length (self_rows s).
      length (self_rows (object_after (steps n s)) ! i) = length (self_rows s ! i) \<and>
      (\<forall>j<length (self_rows s ! i). self_rows s ! i ! j \<noteq> OBSTACLE_BREAKABLE \<longrightarrow>
         self_rows (object_after (steps n s)) ! i ! j = self_rows s ! i ! j))"
proof (induction n arbitrary: s)
  case 0
  then show ?case by simp
next
  case (Suc n)
  show ?case
  proof (cases "go s")
    case (Inl r)
    then have "object_after (steps (Suc n) s) = object_after (go s)" by simp
    then show ?thesis using go_cellwise [where s = s] by simp
  next
    case (Inr s')
    then have o: "object_after (go s) = s'"
      and st: "object_after (steps (Suc n) s) = object_after (steps n s')" by simp_all
    note one = go_cellwise [where s = s, unfolded o]
    show ?thesis
      unfolding st using Suc [of s'] one by auto
  qed
qed

lemma teleporters_in_row_cells:
  assumes "(a, b) \<in> set (teleporters_in_row k (enumerate m row))"
  shows "a = int k \<and> (\<exists>j. b = int j \<and> m \<le> j \<and> j < m + length row
            \<and> row ! (j - m) = TELEPORT_CHAR)"
  using assms
proof (induction row arbitrary: m)
  case Nil
  then show ?case by simp
next
  case (Cons c row)
  show ?case
  proof (cases "(a, b) \<in> set (teleporters_in_row k (enumerate (Suc m) row))")
    case True
    from Cons.IH [OF True] obtain j where "a = int k" "b = int j" "Suc m \<le> j"
        "j < Suc m + length row" "row ! (j - Suc m) = TELEPORT_CHAR" by blast
    moreover from this have "(c # row) ! (j - m) = row ! (j - Suc m)"
      by (simp add: nth_Cons')
    ultimately show ?thesis by (intro conjI exI [of _ j]) simp_all
  next
    case False
    with Cons.prems have "c = TELEPORT_CHAR" "a = int k" "b = int m"
      by (auto split: if_splits)
    then show ?thesis by (intro conjI exI [of _ m]) simp_all
  qed
qed

lemma teleporters_in_rows_cells:
  assumes "(a, b) \<in> set (teleporters_in_rows (enumerate m rows))"
  shows "\<exists>i j. a = int i \<and> b = int j \<and> m \<le> i \<and> i < m + length rows
           \<and> j < length (rows ! (i - m)) \<and> rows ! (i - m) ! j = TELEPORT_CHAR"
  using assms
proof (induction rows arbitrary: m)
  case Nil
  then show ?case by simp
next
  case (Cons row rows)
  show ?case
  proof (cases "(a, b) \<in> set (teleporters_in_row m (enumerate 0 row))")
    case True
    from teleporters_in_row_cells [OF True] obtain j where "a = int m" "b = int j"
        "j < length row" "row ! j = TELEPORT_CHAR" by auto
    then show ?thesis by (intro exI [of _ m] exI [of _ j]) simp_all
  next
    case False
    with Cons.prems have "(a, b) \<in> set (teleporters_in_rows (enumerate (Suc m) rows))"
      by simp
    from Cons.IH [OF this] obtain i j where ij: "a = int i" "b = int j" "Suc m \<le> i"
        "i < Suc m + length rows" "j < length (rows ! (i - Suc m))"
        "rows ! (i - Suc m) ! j = TELEPORT_CHAR" by blast
    then have "(row # rows) ! (i - m) = rows ! (i - Suc m)"
      by (simp add: nth_Cons')
    with ij show ?thesis by (intro exI [of _ i] exI [of _ j]) simp_all
  qed
qed

lemma teleport_locations_cells:
  assumes "(a, b) \<in> set (teleport_locations rows)"
  shows "\<exists>i j. a = int i \<and> b = int j \<and> i < length rows \<and> j < length (rows ! i)
           \<and> rows ! i ! j = TELEPORT_CHAR"
  using teleporters_in_rows_cells [of a b 0 rows] assms
  by (simp add: teleport_locations_def)

lemma get_teleporters_target:
  assumes "get_teleporters rows = Some d" and "d p = Some q"
  shows "q \<in> set (teleport_locations rows)"
proof -
  let ?locs = "teleport_locations rows"
  from assms(1) have len: "2 \<le> length ?locs" and d: "d = [?locs ! 0 \<mapsto> ?locs ! 1, ?locs ! 1 \<mapsto> ?locs ! 0]"
    by (auto simp: get_teleporters_def Let_def py_get_def py_index_def split: sum.splits if_splits)
  from d assms(2) have "q = ?locs ! 0 \<or> q = ?locs ! 1"
    by (auto split: if_splits)
  with len show ?thesis by (auto intro: nth_mem)
qed

lemma py_index_int: "k < n \<Longrightarrow> py_index n (int k) = Some k"
  by (simp add: py_index_def)

lemma run_teleport_target:
  assumes init: "Bender_init rows0 = Inr s0" and run: "steps n s0 = Inr s"
    and dict: "self_teleport s = Some d" and target: "d p = Some (x', y')"
  shows "current_cell (s\<lparr>self_x := x', self_y := y'\<rparr>) = Inr TELEPORT_CHAR"
proof -
  from run have o: "object_after (steps n s0) = s" by simp
  have "self_teleport s = self_teleport s0"
    using steps_teleport [of n s0] o by simp
  with dict Bender_init_fields(3) [OF init] have "get_teleporters rows0 = Some d" by simp
  from get_teleporters_target [OF this target]
  obtain i j where ij: "x' = int i" "y' = int j" "i < length rows0" "j < length (rows0 ! i)"
      "rows0 ! i ! j = TELEPORT_CHAR"
    using teleport_locations_cells [of x' y' rows0] by blast
  have r0: "self_rows s0 = rows0" using init by (rule Bender_init_fields)
  note keep = steps_cellwise [of n s0, unfolded o r0]
  from keep ij have "length (self_rows s) = length rows0"
      "length (self_rows s ! i) = length (rows0 ! i)"
      "self_rows s ! i ! j = TELEPORT_CHAR"
    by (auto simp: char_defs)
  with ij show ?thesis
    by (simp add: current_cell_index py_index_int)
qed

lemma go_rows_in_run:
  assumes init: "Bender_init rows0 = Inr s0" and run: "steps n s0 = Inr s"
    and idle: "\<not> (current_cell s = Inr OBSTACLE_BREAKABLE \<and> self_in_beer_state s)"
  shows "self_rows (object_after (go s)) = self_rows s"
proof -
  have "self_rows (object_after (check_current_cell s)) = self_rows s"
  proof (cases "current_cell s")
    case (Inl e)
    then show ?thesis by (simp add: check_current_cell_unreadable)
  next
    case (Inr c)
    note by_cell = check_current_cell_by_cell [OF Inr]
    show ?thesis
    proof (cases "c = BEER_CHAR \<or> c = INVERTER_CHAR")
      case True
      then show ?thesis by (auto simp: by_cell)
    next
      case plain: False
      show ?thesis
      proof (cases "c = TELEPORT_CHAR")
        case False
        with plain have "check_current_cell s = check_destroy_obstacle s"
          by (simp add: by_cell)
        moreover have "check_destroy_obstacle s = Inr s"
          using Inr idle by (intro check_destroy_obstacle_idle [of s c]) auto
        ultimately show ?thesis by simp
      next
        case True
        show ?thesis
        proof (cases "self_teleport s")
          case None
          with plain True show ?thesis by (simp add: by_cell)
        next
          case (Some d)
          show ?thesis
          proof (cases "d (self_x s, self_y s)")
            case None
            with plain True Some show ?thesis by (simp add: by_cell)
          next
            case target: (Some q)
            obtain x' y' where q: "q = (x', y')" by (cases q)
            let ?t = "s\<lparr>self_x := x', self_y := y'\<rparr>"
            from plain True Some target q
            have "check_current_cell s = check_destroy_obstacle ?t"
              by (simp add: by_cell)
            moreover have "current_cell ?t = Inr TELEPORT_CHAR"
              using init run Some target unfolding q by (rule run_teleport_target)
            then have "check_destroy_obstacle ?t = Inr ?t"
              by (intro check_destroy_obstacle_idle [of ?t TELEPORT_CHAR]) (simp_all add: char_defs)
            ultimately show ?thesis by simp
          qed
        qed
      qed
    qed
  qed
  then show ?thesis by (simp add: go_rows_entry)
qed

text \<open>
  Claim C9. A call of \<open>go\<close>, returning or raising, leaves the board as it was, or
  replaces by a space the one cell that the destroy check reads (the walker's cell after
  the entry relocation), which held \<open>X\<close>, with the beer flag set. When the call begins on
  an \<open>X\<close> cell with the flag set the replacement happens; in a run from construction it
  happens in no other call. Over any number of calls the board keeps its dimensions and
  every cell that does not hold \<open>X\<close> keeps its code, so a cell that has been replaced
  holds the space for the rest of the run. A space is treated as empty: next to the
  walker it is no obstacle, and under the walker it triggers no entry effect, the
  destruction included.
\<close>

theorem only_destroyed_obstacles_change:
  "(self_rows (object_after (go s)) = self_rows s
      \<or> (self_in_beer_state (object_after (go s))
          \<and> (\<exists>a b. py_index (length (self_rows s))
                        (self_x (object_after (check_current_cell s))) = Some a
                 \<and> py_index (length (self_rows s ! a))
                        (self_y (object_after (check_current_cell s))) = Some b
                 \<and> self_rows s ! a ! b = CHR ''X''
                 \<and> self_rows (object_after (go s)) =
                     (self_rows s)[a := (self_rows s ! a)[b := CHR '' '']])))
   \<and> (current_cell s = Inr (CHR ''X'') \<and> self_in_beer_state s \<longrightarrow>
        (\<exists>a b. py_index (length (self_rows s)) (self_x s) = Some a
           \<and> py_index (length (self_rows s ! a)) (self_y s) = Some b
           \<and> self_rows (object_after (go s)) =
               (self_rows s)[a := (self_rows s ! a)[b := CHR '' '']]))
   \<and> (Bender_init rows0 = Inr s0 \<and> steps m s0 = Inr s
        \<and> \<not> (current_cell s = Inr (CHR ''X'') \<and> self_in_beer_state s) \<longrightarrow>
        self_rows (object_after (go s)) = self_rows s)
   \<and> length (self_rows (object_after (steps n s))) = length (self_rows s)
   \<and> (i < length (self_rows s) \<longrightarrow>
        length (self_rows (object_after (steps n s)) ! i) = length (self_rows s ! i))
   \<and> (i < length (self_rows s) \<and> j < length (self_rows s ! i)
        \<and> self_rows s ! i ! j \<noteq> CHR ''X'' \<longrightarrow>
        self_rows (object_after (steps n s)) ! i ! j = self_rows s ! i ! j)
   \<and> (get_cell s d = Inr (CHR '' '') \<longrightarrow> check_for_obstacle s d = Inr False)
   \<and> (current_cell s = Inr (CHR '' '') \<longrightarrow> check_current_cell s = Inr s)"
proof (intro conjI impI)
  show "self_rows (object_after (go s)) = self_rows s
      \<or> (self_in_beer_state (object_after (go s))
          \<and> (\<exists>a b. py_index (length (self_rows s))
                        (self_x (object_after (check_current_cell s))) = Some a
                 \<and> py_index (length (self_rows s ! a))
                        (self_y (object_after (check_current_cell s))) = Some b
                 \<and> self_rows s ! a ! b = CHR ''X''
                 \<and> self_rows (object_after (go s)) =
                     (self_rows s)[a := (self_rows s ! a)[b := CHR '' '']]))"
    using check_current_cell_rows [of s]
    unfolding go_rows_entry [of s] go_beer_entry [of s] OBSTACLE_BREAKABLE_def .
next
  assume h: "current_cell s = Inr (CHR ''X'') \<and> self_in_beer_state s"
  then obtain a b where a: "py_index (length (self_rows s)) (self_x s) = Some a"
    and b: "py_index (length (self_rows s ! a)) (self_y s) = Some b"
    and x: "self_rows s ! a ! b = OBSTACLE_BREAKABLE"
    by (auto simp: current_cell_index char_defs)
  from h have "check_current_cell s = check_destroy_obstacle s"
    using check_current_cell_by_cell [of s "CHR ''X''"] by (simp add: char_defs)
  also have "\<dots> = Inr (s\<lparr>self_rows := (self_rows s)[a := (self_rows s ! a)[b := CHR '' '']]\<rparr>)"
    using a b x h by (intro check_destroy_obstacle_erases) simp_all
  finally have "self_rows (object_after (go s)) =
      (self_rows s)[a := (self_rows s ! a)[b := CHR '' '']]"
    by (simp add: go_rows_entry)
  with a b show "\<exists>a b. py_index (length (self_rows s)) (self_x s) = Some a
           \<and> py_index (length (self_rows s ! a)) (self_y s) = Some b
           \<and> self_rows (object_after (go s)) =
               (self_rows s)[a := (self_rows s ! a)[b := CHR '' '']]"
    by blast
next
  assume h: "Bender_init rows0 = Inr s0 \<and> steps m s0 = Inr s
        \<and> \<not> (current_cell s = Inr (CHR ''X'') \<and> self_in_beer_state s)"
  then show "self_rows (object_after (go s)) = self_rows s"
    by (intro go_rows_in_run [of rows0 s0 m s]) (simp_all add: char_defs)
next
  show "length (self_rows (object_after (steps n s))) = length (self_rows s)"
    using steps_cellwise [of n s] by blast
next
  assume "i < length (self_rows s)"
  then show "length (self_rows (object_after (steps n s)) ! i) = length (self_rows s ! i)"
    using steps_cellwise [of n s] by blast
next
  assume "i < length (self_rows s) \<and> j < length (self_rows s ! i)
        \<and> self_rows s ! i ! j \<noteq> CHR ''X''"
  then show "self_rows (object_after (steps n s)) ! i ! j = self_rows s ! i ! j"
    using steps_cellwise [of n s] by (simp add: char_defs)
next
  assume "get_cell s d = Inr (CHR '' '')"
  then show "check_for_obstacle s d = Inr False"
    by (simp add: check_for_obstacle_def obstacles_def)
next
  assume "current_cell s = Inr (CHR '' '')"
  then show "check_current_cell s = Inr s"
    by (intro check_current_cell_inert [of s "CHR '' ''"]) (simp_all add: char_defs)
qed

theorem only_destroyed_obstacles_change_witness:
  "Bender_init beer_board = Inr beer_start
   \<and> self_rows (object_after (go beer_start)) = beer_board
   \<and> steps 2 beer_start = Inr beer_state
   \<and> current_cell beer_state = Inr (CHR ''X'')
   \<and> self_in_beer_state beer_state
   \<and> self_rows (object_after (go beer_state)) =
       [''###'', ''#@#'', ''#B#'', ''# #'', ''#$#'', ''###'']
   \<and> run beer_start =
       Inr (beer_state\<lparr> self_rows := [''###'', ''#@#'', ''#B#'', ''# #'', ''#$#'', ''###''],
              self_x := 4, self_history := [''SOUTH'', ''SOUTH'', ''SOUTH''] \<rparr>)"
proof -
  have i: "Bender_init beer_board = Inr beer_start"
    by (simp add: eval_defs beer_start_def beer_board_def)
  have z: "steps 0 beer_start = Inr beer_start" by simp
  have c0: "\<not> (current_cell beer_start = Inr (CHR ''X'') \<and> self_in_beer_state beer_start)"
    by (simp add: beer_start_def)
  from only_destroyed_obstacles_change [of beer_start beer_board beer_start 0] i z c0
  have r0: "self_rows (object_after (go beer_start)) = beer_board"
    by (simp add: beer_start_def)
  have s2: "steps 2 beer_start = Inr beer_state"
    by (simp add: numeral_2_eq_2 eval_defs beer_state_def beer_start_def beer_board_def)
  have c: "current_cell beer_state = Inr (CHR ''X'')" and b: "self_in_beer_state beer_state"
    by (simp_all add: eval_defs beer_state_def beer_start_def beer_board_def)
  from only_destroyed_obstacles_change [of beer_state] c b
  obtain k l where k: "py_index (length (self_rows beer_state)) (self_x beer_state) = Some k"
    and l: "py_index (length (self_rows beer_state ! k)) (self_y beer_state) = Some l"
    and r: "self_rows (object_after (go beer_state)) =
        (self_rows beer_state)[k := (self_rows beer_state ! k)[l := CHR '' '']]"
    by blast
  from k have k3: "k = 3"
    by (simp add: py_index_def beer_state_def beer_start_def beer_board_def)
  with l have l1: "l = 1"
    by (simp add: py_index_def beer_state_def beer_start_def beer_board_def)
  from r have r1: "self_rows (object_after (go beer_state)) =
       [''###'', ''#@#'', ''#B#'', ''# #'', ''#$#'', ''###'']"
    unfolding k3 l1 by (simp add: beer_state_def beer_start_def beer_board_def)
  have w: "run beer_start =
       Inr (beer_state\<lparr> self_rows := [''###'', ''#@#'', ''#B#'', ''# #'', ''#$#'', ''###''],
              self_x := 4, self_history := [''SOUTH'', ''SOUTH'', ''SOUTH''] \<rparr>)"
    by (simp add: run.simps eval_defs beer_state_def beer_start_def beer_board_def)
  from i r0 s2 c b r1 w show ?thesis by blast
qed

end
